theory Spec2Isabelle
  imports Complex_Main "HOL-Library.AList" "HOL-Library.Multiset"
begin

section \<open>Data model of the application (App component)\<close>

text \<open>
  The style table \<open>STYLES\<close> is a JavaScript object literal. Its keys are strings that are
  not array indices, so \<open>Object.keys\<close> lists them in the order they are written. The
  table is kept as an association list in that order.
\<close>

record style =
  name :: string
  prompt :: string

definition STYLES :: "(string \<times> style) list" where
  "STYLES = [
   (''digital-painting'',
    \<lparr>name = ''Digital Painting'',
     prompt = ''Create a vibrant, artistic, and expressive digital painting of the person in this photo. The style should be modern and eye-catching, suitable for a social profile. Make the person look their best, enhancing their features in a flattering way. The background should be abstract and complementary to the portrait.''\<rparr>),
   (''watercolor'',
    \<lparr>name = ''Watercolor'',
     prompt = ''Create a portrait of the person in this photo in a soft, flowing watercolor style. Use a wet-on-wet technique with delicate washes of color and visible brushstrokes. The background should be light and abstract, suggesting a paper texture.''\<rparr>),
   (''sketch'',
    \<lparr>name = ''Sketch'',
     prompt = ''Create a detailed charcoal sketch portrait of the person in this photo. Emphasize strong light and shadow (chiaroscuro) for a dramatic, classic effect. The background should be minimal, like a piece of artist's paper.''\<rparr>),
   (''vaporwave'',
    \<lparr>name = ''Pastel Pop'',
     prompt = ''Transform the person in this photo into a vibrant K-pop idol style portrait. The aesthetic should be cute, energetic, and trendy. Adorn their hair with large, puffy, shiny bows (like pink and light blue) and scatter small, colorful star-shaped stickers or confetti on their face and hair. The makeup should be soft and doll-like, with prominent blush and glossy lips. Use bright, even studio lighting against a solid, vibrant pastel background (like lavender or bubblegum pink).''\<rparr>),
   (''3d-render'',
    \<lparr>name = ''3D Render'',
     prompt = ''Recreate the person in this photo as a stylized 3D character render, similar to modern animated movies. Focus on soft lighting, detailed textures for hair and clothing, and a friendly, appealing expression. The background should be a simple, clean studio setup.''\<rparr>),
   (''impressionism'',
    \<lparr>name = ''Impressionism'',
     prompt = ''Generate a portrait of the person in this photo in the style of Impressionism. Use visible, short, thick brushstrokes and a focus on the accurate depiction of light and its changing qualities. The overall effect should be a fleeting moment captured on canvas. Avoid hard outlines.''\<rparr>),
   (''pop-art'',
    \<lparr>name = ''Pop Art'',
     prompt = ''Create a Pop Art portrait of the person from this photo, inspired by artists like Andy Warhol. Use bold, flat colors, strong black outlines, and a screen-printed look. The background should be a single, vibrant, solid color.''\<rparr>),
   (''anime'',
    \<lparr>name = ''Anime'',
     prompt = ''Illustrate the person in this photo in a classic 90s anime/manga style. Emphasize large, expressive eyes, stylized hair, and clean lines. The background should be simple, perhaps with speed lines or a soft gradient to focus on the character.''\<rparr>),
   (''comic-book'',
    \<lparr>name = ''Comic Book'',
     prompt = ''Transform this photo into a Western comic book style portrait. Use bold ink lines, dynamic shading with cross-hatching or Ben-Day dots, and a dramatic, action-oriented pose. The colors should be vibrant and slightly saturated.''\<rparr>)]"

definition STYLE_KEYS :: "string list" where
  "STYLE_KEYS = map fst STYLES"

text \<open>
  \<open>type ImageStatus = 'pending' | 'done' | 'error'\<close> and the interface
  \<open>GeneratedImage\<close> with its two optional fields. An optional field that is absent is
  \<open>None\<close>.
\<close>

datatype ImageStatus = Pending | Done | Error

record GeneratedImage =
  status :: ImageStatus
  url :: "string option"
  error :: "string option"

datatype AppState = Idle | Cropping | ImageUploaded | Generating | ResultsShown

text \<open>
  A value that a JavaScript \<open>throw\<close> or a rejected promise carries: an instance of
  \<open>Error\<close> with its message, or any other value.
\<close>

datatype thrown = ErrorObject string | OtherValue

text \<open>
  The three object literals that the component stores in the result mapping.
\<close>

definition pendingImage :: GeneratedImage where
  "pendingImage = \<lparr>status = Pending, url = None, error = None\<rparr>"

definition doneImage :: "string \<Rightarrow> GeneratedImage" where
  "doneImage watermarkedUrl = \<lparr>status = Done, url = Some watermarkedUrl, error = None\<rparr>"

definition errorImage :: "string \<Rightarrow> GeneratedImage" where
  "errorImage errorMessage = \<lparr>status = Error, url = None, error = Some errorMessage\<rparr>"

text \<open>
  \<open>err instanceof Error ? err.message : "An unknown error occurred."\<close>
\<close>

fun errorMessage :: "thrown \<Rightarrow> string" where
  "errorMessage (ErrorObject message) = message"
| "errorMessage OtherValue = ''An unknown error occurred.''"

text \<open>
  Truthiness of a \<open>string | null\<close> value (\<open>croppedImageForDisplay\<close>) and of a string
  (\<open>styleKey\<close>, \<open>image.url\<close>): \<open>null\<close>, \<open>undefined\<close> and the empty string are falsy.
\<close>

fun truthy :: "string option \<Rightarrow> bool" where
  "truthy None = False"
| "truthy (Some s) = (s \<noteq> [])"

section \<open>Asynchronous control state\<close>

text \<open>
  An \<open>async\<close> function runs synchronously up to an \<open>await\<close> and is resumed when the
  awaited promise settles. A call of \<open>processStyle\<close> (and the identical
  \<open>try\<close> block of \<open>handleRegenerateStyle\<close>) is suspended either at
  \<open>await generateStyledImage(...)\<close> or at \<open>await addWatermark(resultUrl)\<close>.
\<close>

datatype task = AwaitGenerate | AwaitWatermark string

text \<open>
  A worker of the pool is at the head of its \<open>while\<close> loop, inside
  \<open>await processStyle(styleKey)\<close>, or has returned.
\<close>

datatype worker = AtLoop | InProcessStyle string task | Returned

text \<open>
  Who performs a step: worker number \<open>w\<close> of the pool, or the single-job handler
  \<open>handleRegenerateStyle\<close>.
\<close>

datatype origin = Pool nat | Regenerate

text \<open>
  One call \<open>setGeneratedImages(prev => ({...prev, [styleKey]: image}))\<close>, recorded with the
  entry it replaces.
\<close>

record entryUpdate =
  who :: origin
  key :: string
  before :: "GeneratedImage option"
  after :: GeneratedImage

text \<open>
  The state of the component: the React state variables that the handlers below read and
  write, the local variables of the latest \<open>handleGenerateClick\<close> call
  (\<open>stylesQueue\<close>, \<open>workers\<close>, and whether the call is suspended at
  \<open>await Promise.all(workers)\<close>), the calls of \<open>handleRegenerateStyle\<close> that are in
  flight, the number of \<open>FileReader\<close>s that \<open>handleImageUpload\<close> has started and that
  have not finished, the same three local variables for every earlier call of
  \<open>handleGenerateClick\<close> that was still waiting for its workers when a later call
  started, and three history fields that only record what happened: how often the
  statement after \<open>await Promise.all(workers)\<close> ran, every call of
  \<open>generateStyledImage\<close>, and every update of one entry of the result mapping.
  The result mapping is a JavaScript object; \<open>AList.update\<close> is its
  \<open>{...prev, [k]: v}\<close>: an existing key keeps its place, a new key goes to the end.
\<close>

record app =
  uploadedImage :: "string option"
  croppedImageForDisplay :: "string option"
  generatedImages :: "(string \<times> GeneratedImage) list"
  isDownloading :: bool
  appState :: AppState
  stylesQueue :: "string list"
  workers :: "worker list"
  awaitingAll :: bool
  regenerating :: "(string \<times> task) list"
  reading :: nat
  earlier :: "(string list \<times> worker list \<times> bool) list"
  signalled :: nat
  started :: "(origin \<times> string) list"
  writes :: "entryUpdate list"

definition concurrencyLimit :: nat where
  "concurrencyLimit = 3"

definition setGeneratedImage :: "origin \<Rightarrow> string \<Rightarrow> GeneratedImage \<Rightarrow> app \<Rightarrow> app" where
  "setGeneratedImage actor styleKey entry a =
     a\<lparr>generatedImages := AList.update styleKey entry (generatedImages a),
       writes := writes a @
         [\<lparr>who = actor, key = styleKey, before = map_of (generatedImages a) styleKey,
           after = entry\<rparr>]\<rparr>"

text \<open>
  \<open>STYLES[styleKey].prompt\<close> for a key that is not in the table reads a property of
  \<open>undefined\<close> and throws a \<open>TypeError\<close>, an instance of \<open>Error\<close>; the text of its
  message is the engine's (V8's is used here). The table is looked up by its own keys:
  the names every object inherits (\<open>constructor\<close>, \<open>toString\<close> and the like), for which
  the lookup finds something else than \<open>undefined\<close>, are not keys that any caller
  passes, and every statement below that depends on a lookup is about style keys.
\<close>

definition promptTypeError :: thrown where
  "promptTypeError =
     ErrorObject ''Cannot read properties of undefined (reading 'prompt')''"

text \<open>
  The body of the \<open>try\<close>/\<open>catch\<close> of \<open>processStyle\<close>, which
  \<open>handleRegenerateStyle\<close> repeats word for word, resumed when the promise it awaits
  settles with \<open>outcome\<close> (\<open>Inl\<close> a rejection, \<open>Inr\<close> the value). The result is the new
  state and the next suspension point, \<open>None\<close> when the body has finished.
\<close>

fun resume :: "origin \<Rightarrow> string \<Rightarrow> task \<Rightarrow> thrown + string \<Rightarrow> app \<Rightarrow> app \<times> task option" where
  "resume actor styleKey t (Inl err) a =
     (setGeneratedImage actor styleKey (errorImage (errorMessage err)) a, None)"
| "resume actor styleKey AwaitGenerate (Inr resultUrl) a =
     (a, Some (AwaitWatermark resultUrl))"
| "resume actor styleKey (AwaitWatermark resultUrl) (Inr watermarkedUrl) a =
     (setGeneratedImage actor styleKey (doneImage watermarkedUrl) a, None)"

section \<open>handleGenerateClick: the bounded worker pool\<close>

text \<open>
  \<open>initialImages\<close>: the \<open>forEach\<close> over \<open>STYLE_KEYS\<close> that assigns
  \<open>{ status: 'pending' }\<close> to every key of an empty object.
\<close>

definition initialImages :: "(string \<times> GeneratedImage) list" where
  "initialImages = foldl (\<lambda>images styleKey. AList.update styleKey pendingImage images) [] STYLE_KEYS"

text \<open>
  The synchronous part of \<open>handleGenerateClick\<close>: the guard, the two state updates, the
  queue and the creation of the workers. In JavaScript each worker already runs to its
  first \<open>await\<close> while it is created; here every worker starts at the head of its loop and
  takes that first run as a step of its own, which allows every order in which the real
  workers can run and more. A call made while an earlier one still waits for its workers
  gets a queue and workers of its own, and the earlier call keeps its: they move to
  \<open>earlier\<close>. The history fields start afresh with the call.
\<close>

definition handleGenerateClick :: "app \<Rightarrow> app" where
  "handleGenerateClick a =
     (if \<not> truthy (croppedImageForDisplay a) then a
      else a\<lparr>appState := Generating,
             generatedImages := initialImages,
             earlier :=
               (if awaitingAll a then earlier a @ [(stylesQueue a, workers a, True)]
                else earlier a),
             stylesQueue := STYLE_KEYS,
             workers := replicate concurrencyLimit AtLoop,
             awaitingAll := True,
             signalled := 0,
             started := [],
             writes := []\<rparr>)"

text \<open>
  The start of \<open>processStyle(styleKey)\<close> in worker \<open>w\<close>: the prompt is looked up and
  \<open>generateStyledImage\<close> is called. A key without a table entry throws inside the
  \<open>try\<close>; the \<open>catch\<close> stores the error and the call is over. The \<open>console.error\<close>
  of the \<open>catch\<close> blocks only logs and is left out.
\<close>

definition processStyle :: "nat \<Rightarrow> string \<Rightarrow> app \<Rightarrow> app" where
  "processStyle w styleKey a =
     (case map_of STYLES styleKey of
        None \<Rightarrow> setGeneratedImage (Pool w) styleKey (errorImage (errorMessage promptTypeError)) a
      | Some st \<Rightarrow>
          a\<lparr>workers := (workers a)[w := InProcessStyle styleKey AwaitGenerate],
            started := started a @ [(Pool w, styleKey)]\<rparr>)"

text \<open>
  One pass of a worker through
  \<open>while (stylesQueue.length > 0) { const styleKey = stylesQueue.shift(); if (styleKey) { await processStyle(styleKey); } }\<close>
  from the loop test to the next suspension or to the return.
\<close>

definition workerLoop :: "nat \<Rightarrow> app \<Rightarrow> app" where
  "workerLoop w a =
     (case stylesQueue a of
        [] \<Rightarrow> a\<lparr>workers := (workers a)[w := Returned]\<rparr>
      | styleKey # rest \<Rightarrow>
          (if styleKey \<noteq> [] then processStyle w styleKey (a\<lparr>stylesQueue := rest\<rparr>)
           else a\<lparr>stylesQueue := rest\<rparr>))"

section \<open>handleRegenerateStyle: the single-job path\<close>

text \<open>
  The synchronous part of \<open>handleRegenerateStyle(styleKey)\<close>: the two guards, the reset of
  the entry to \<open>pending\<close>, and the start of the \<open>try\<close> block up to its first \<open>await\<close>.
  \<open>generatedImages[styleKey]?.status === 'pending'\<close> is false for a key without entry.
\<close>

definition handleRegenerateStyle :: "string \<Rightarrow> app \<Rightarrow> app" where
  "handleRegenerateStyle styleKey a =
     (if \<not> truthy (croppedImageForDisplay a) then a
      else if map_option status (map_of (generatedImages a) styleKey) = Some Pending then a
      else
        (let a1 = setGeneratedImage Regenerate styleKey pendingImage a in
         case map_of STYLES styleKey of
           None \<Rightarrow>
             setGeneratedImage Regenerate styleKey (errorImage (errorMessage promptTypeError)) a1
         | Some st \<Rightarrow>
             a1\<lparr>regenerating := regenerating a1 @ [(styleKey, AwaitGenerate)],
                started := started a1 @ [(Regenerate, styleKey)]\<rparr>))"

section \<open>Steps and executions\<close>

text \<open>
  Everything is single-threaded: between two suspension points a piece of code runs
  alone. An event names the piece that runs next, with the outcome of the promise that
  woke it up:
  \<^item> \<open>Loop w\<close>: worker \<open>w\<close> runs one pass of its loop;
  \<^item> \<open>Settle w outcome\<close>: the promise worker \<open>w\<close> awaits inside \<open>processStyle\<close> settles;
  \<^item> \<open>AllSettled\<close>: \<open>Promise.all(workers)\<close> has resolved and \<open>handleGenerateClick\<close> runs
    its last statement, \<open>setAppState('results-shown')\<close>;
  \<^item> \<open>RegenerateClick k\<close>: \<open>handleRegenerateStyle(k)\<close> is called;
  \<^item> \<open>RegenerateSettle i outcome\<close>: the promise awaited by the \<open>i\<close>-th call of
    \<open>handleRegenerateStyle\<close> in flight settles.
  \<open>step\<close> is \<open>None\<close> when the event cannot happen in the state. A promise may settle
  with any outcome: \<open>generateStyledImage\<close> is a call to a remote service, and what
  \<open>addWatermark\<close> returns depends on the browser.
\<close>

datatype event =
    Loop nat
  | Settle nat "thrown + string"
  | AllSettled
  | RegenerateClick string
  | RegenerateSettle nat "thrown + string"

fun step :: "event \<Rightarrow> app \<Rightarrow> app option" where
  "step (Loop w) a =
     (if w < length (workers a) \<and> workers a ! w = AtLoop then Some (workerLoop w a) else None)"
| "step (Settle w outcome) a =
     (if w < length (workers a) then
        (case workers a ! w of
           InProcessStyle styleKey t \<Rightarrow>
             (case resume (Pool w) styleKey t outcome a of
                (a', Some t') \<Rightarrow> Some (a'\<lparr>workers := (workers a')[w := InProcessStyle styleKey t']\<rparr>)
              | (a', None) \<Rightarrow> Some (a'\<lparr>workers := (workers a')[w := AtLoop]\<rparr>))
         | _ \<Rightarrow> None)
      else None)"
| "step AllSettled a =
     (if awaitingAll a \<and> (\<forall>x \<in> set (workers a). x = Returned)
      then Some (a\<lparr>appState := ResultsShown, awaitingAll := False, signalled := Suc (signalled a)\<rparr>)
      else None)"
| "step (RegenerateClick styleKey) a = Some (handleRegenerateStyle styleKey a)"
| "step (RegenerateSettle i outcome) a =
     (if i < length (regenerating a) then
        (case regenerating a ! i of
           (styleKey, t) \<Rightarrow>
             (case resume Regenerate styleKey t outcome a of
                (a', Some t') \<Rightarrow> Some (a'\<lparr>regenerating := (regenerating a')[i := (styleKey, t')]\<rparr>)
              | (a', None) \<Rightarrow>
                  Some (a'\<lparr>regenerating := take i (regenerating a') @ drop (Suc i) (regenerating a')\<rparr>)))
      else None)"

text \<open>The events of a call of \<open>handleGenerateClick\<close> and its workers.\<close>

fun isPoolEvent :: "event \<Rightarrow> bool" where
  "isPoolEvent (Loop w) = True"
| "isPoolEvent (Settle w outcome) = True"
| "isPoolEvent AllSettled = True"
| "isPoolEvent (RegenerateClick styleKey) = False"
| "isPoolEvent (RegenerateSettle i outcome) = False"

fun exec :: "event list \<Rightarrow> app \<Rightarrow> app option" where
  "exec [] a = Some a"
| "exec (e # es) a = (case step e a of None \<Rightarrow> None | Some a' \<Rightarrow> exec es a')"

section \<open>The other handlers and the user interface\<close>

text \<open>
  \<open>handleImageUpload\<close> for a change event that carries a file: a \<open>FileReader\<close> is created
  and the read is started. Its \<open>onloadend\<close> callback runs when the read has ended, with
  \<open>reader.result\<close>: the data URL, or \<open>null\<close> when the read failed. The callback tests
  nothing: it runs in whatever state the component is in by then.
\<close>

definition handleImageUpload :: "app \<Rightarrow> app" where
  "handleImageUpload a = a\<lparr>reading := Suc (reading a)\<rparr>"

definition onloadend :: "string option \<Rightarrow> app \<Rightarrow> app" where
  "onloadend result a =
     a\<lparr>uploadedImage := result, appState := Cropping, generatedImages := [],
       croppedImageForDisplay := None, reading := reading a - 1\<rparr>"

text \<open>\<open>handleCropConfirm\<close>, \<open>handleCropCancel\<close> and \<open>handleReset\<close>.\<close>

definition handleCropConfirm :: "string \<Rightarrow> app \<Rightarrow> app" where
  "handleCropConfirm croppedImageUrl a =
     a\<lparr>croppedImageForDisplay := Some croppedImageUrl, appState := ImageUploaded\<rparr>"

definition handleCropCancel :: "app \<Rightarrow> app" where
  "handleCropCancel a = a\<lparr>uploadedImage := None, appState := Idle\<rparr>"

definition handleReset :: "app \<Rightarrow> app" where
  "handleReset a =
     a\<lparr>uploadedImage := None, croppedImageForDisplay := None, generatedImages := [],
       appState := Idle\<rparr>"

text \<open>
  The state of the component when it is mounted: the \<open>useState\<close> defaults, no dispatch,
  no regeneration and no file being read.
\<close>

definition mountedApp :: app where
  "mountedApp =
     \<lparr>uploadedImage = None, croppedImageForDisplay = None, generatedImages = [],
      isDownloading = False, appState = Idle, stylesQueue = [], workers = [],
      awaitingAll = False, regenerating = [], reading = 0, earlier = [],
      signalled = 0, started = [], writes = []\<rparr>"

text \<open>
  A step of an earlier call of \<open>handleGenerateClick\<close> or of one of its workers: the same
  code as for the latest call, run on the queue and the workers of call number \<open>j\<close> of
  \<open>earlier\<close>, and on the React state that all calls share. The history fields record
  it like a step of the latest call.
\<close>

definition stepEarlier :: "nat \<Rightarrow> event \<Rightarrow> app \<Rightarrow> app option" where
  "stepEarlier j e a =
     (if j < length (earlier a) \<and> isPoolEvent e then
        (case earlier a ! j of
           (queue, ws, awaiting) \<Rightarrow>
             (case step e (a\<lparr>stylesQueue := queue, workers := ws, awaitingAll := awaiting\<rparr>) of
                None \<Rightarrow> None
              | Some a' \<Rightarrow>
                  Some (a'\<lparr>stylesQueue := stylesQueue a, workers := workers a,
                           awaitingAll := awaitingAll a,
                           earlier := (earlier a)[j := (stylesQueue a', workers a', awaitingAll a')]\<rparr>)))
      else None)"

text \<open>
  What the rendered page lets happen, read off the JSX: the file input exists in state
  \<open>idle\<close>, and a file chosen there starts a read; the cropper with its confirm and cancel
  in state \<open>cropping\<close> with an uploaded image; the buttons "Different Photo"
  (\<open>handleReset\<close>) and "Generate Styles" (\<open>handleGenerateClick\<close>) in state
  \<open>image-uploaded\<close> with a cropped image; one card per style key, each with
  \<open>onRegenerate\<close>, in states \<open>generating\<close> and \<open>results-shown\<close>; and "Start Over"
  (\<open>handleReset\<close>) in state \<open>results-shown\<close>. The end of a read, settling promises and the
  workers' steps need no rendering: they happen in every state, the end of a read
  whenever one is under way.
\<close>

datatype action =
    FileChosen
  | FileLoaded "string option"
  | CropConfirm string
  | CropCancel
  | GenerateClick
  | ResetClick
  | Internal event
  | Earlier nat event

fun act :: "action \<Rightarrow> app \<Rightarrow> app option" where
  "act FileChosen a =
     (if appState a = Idle then Some (handleImageUpload a) else None)"
| "act (FileLoaded result) a =
     (if 0 < reading a then Some (onloadend result a) else None)"
| "act (CropConfirm croppedImageUrl) a =
     (if appState a = Cropping \<and> truthy (uploadedImage a)
      then Some (handleCropConfirm croppedImageUrl a) else None)"
| "act CropCancel a =
     (if appState a = Cropping \<and> truthy (uploadedImage a)
      then Some (handleCropCancel a) else None)"
| "act GenerateClick a =
     (if appState a = ImageUploaded \<and> truthy (croppedImageForDisplay a)
      then Some (handleGenerateClick a) else None)"
| "act ResetClick a =
     (if (appState a = ImageUploaded \<and> truthy (croppedImageForDisplay a)) \<or>
         appState a = ResultsShown
      then Some (handleReset a) else None)"
| "act (Internal (RegenerateClick styleKey)) a =
     (if (appState a = Generating \<or> appState a = ResultsShown) \<and> styleKey \<in> set STYLE_KEYS
      then step (RegenerateClick styleKey) a else None)"
| "act (Internal e) a = step e a"
| "act (Earlier j e) a = stepEarlier j e a"

fun session :: "action list \<Rightarrow> app \<Rightarrow> app option" where
  "session [] a = Some a"
| "session (x # xs) a = (case act x a of None \<Rightarrow> None | Some a' \<Rightarrow> session xs a')"

section \<open>handleDownloadAlbum\<close>

text \<open>
  What \<open>handleDownloadAlbum\<close> does to the outside: \<open>alert(message)\<close>, the call
  \<open>createAlbumPage(imageData)\<close>, and the click on a link with \<open>href\<close> and \<open>download\<close>.
\<close>

datatype effect = Alert string | CreateAlbumPage "(string \<times> string) list" | Download string string

text \<open>
  \<open>Object.entries(generatedImages).filter(([, image]) => image.status === 'done' && image.url)\<close>,
  each entry with its url.
\<close>

fun doneEntries :: "(string \<times> GeneratedImage) list \<Rightarrow> (string \<times> string) list" where
  "doneEntries [] = []"
| "doneEntries ((styleKey, g) # rest) =
     (if status g = Done \<and> truthy (url g)
      then (case url g of Some u \<Rightarrow> (styleKey, u) # doneEntries rest | None \<Rightarrow> doneEntries rest)
      else doneEntries rest)"

text \<open>
  \<open>STYLES[styleKey].name\<close> for a key that is not in the table throws a \<open>TypeError\<close>.
\<close>

definition nameTypeError :: thrown where
  "nameTypeError = ErrorObject ''Cannot read properties of undefined (reading 'name')''"

text \<open>
  The \<open>reduce\<close> that builds \<open>imageData\<close>: \<open>acc[styleName] = image.url\<close> for every
  entry, in order.
\<close>

fun collectImageData :: "(string \<times> string) list \<Rightarrow> (string \<times> string) list \<Rightarrow> thrown + (string \<times> string) list" where
  "collectImageData [] acc = Inr acc"
| "collectImageData ((styleKey, u) # rest) acc =
     (case map_of STYLES styleKey of
        None \<Rightarrow> Inl nameTypeError
      | Some st \<Rightarrow> collectImageData rest (AList.update (name st) u acc))"

definition waitMessage :: string where
  "waitMessage = ''Please wait for all images to finish generating before downloading the album.''"

definition failureMessage :: string where
  "failureMessage = ''Sorry, there was an error creating your album. Please try again.''"

text \<open>
  \<open>handleDownloadAlbum\<close> from the click to the end of its \<open>finally\<close> block, with the
  outcome of \<open>createAlbumPage\<close> (a module that is not part of the sources at hand) as a
  parameter. While the handler runs, \<open>isDownloading\<close> is true; \<open>finally\<close> sets it to false
  on every path.
\<close>

definition handleDownloadAlbum ::
  "((string \<times> string) list \<Rightarrow> thrown + string) \<Rightarrow> app \<Rightarrow> app \<times> effect list" where
  "handleDownloadAlbum createAlbumPage a =
     (a\<lparr>isDownloading := False\<rparr>,
      case collectImageData (doneEntries (generatedImages a)) [] of
        Inl err \<Rightarrow> [Alert failureMessage]
      | Inr imageData \<Rightarrow>
          if length imageData < length STYLE_KEYS then [Alert waitMessage]
          else
            (case createAlbumPage imageData of
               Inl err \<Rightarrow> [CreateAlbumPage imageData, Alert failureMessage]
             | Inr albumDataUrl \<Rightarrow>
                 [CreateAlbumPage imageData, Download albumDataUrl ''pfp-perfect-album.jpg'']))"

section \<open>addWatermark (lib/imageUtils)\<close>

text \<open>
  The watermark (lib/imageUtils). An \<open>HTMLImageElement\<close> that has loaded, with the fields
  the code reads; the text state of a 2D context when \<open>fillText\<close> is called; the drawing
  calls made on the canvas; and the canvas with its size and what was drawn on it.
  JavaScript numbers are doubles; the positions and sizes are kept as real numbers, so
  the rounding of \<open>canvas.width * 0.02\<close> and \<open>canvas.width * 0.03\<close> is not modelled.
  The font is \<open>`${fontSize}px 'Roboto', sans-serif`\<close>, kept as its size and its family.
\<close>

record HTMLImageElement =
  src :: string
  naturalWidth :: nat
  naturalHeight :: nat

record textState =
  fontSize :: real
  fontFamily :: string
  fillStyle :: string
  textAlign :: string
  textBaseline :: string
  shadowColor :: string
  shadowBlur :: real
  shadowOffsetX :: real
  shadowOffsetY :: real

datatype drawing =
    DrawImage HTMLImageElement real real
  | FillText string real real textState

record canvas =
  width :: nat
  height :: nat
  drawn :: "drawing list"

text \<open>
  What the browser decides: whether the image at a URL loads (\<open>onload\<close> with the element,
  or \<open>onerror\<close>), whether \<open>canvas.getContext('2d')\<close> yields a context for a canvas of a
  given size or \<open>null\<close>, and the data URL that \<open>canvas.toDataURL('image/jpeg', 0.9)\<close>
  encodes the canvas as.
\<close>

record browser =
  decode :: "string \<Rightarrow> HTMLImageElement option"
  context2d :: "nat \<Rightarrow> nat \<Rightarrow> bool"
  toDataURL :: "canvas \<Rightarrow> string"

text \<open>
  \<open>loadImage(src)\<close>: the promise resolves with the element or rejects with
  \<open>new Error(`Failed to load image: ${src.substring(0, 50)}...`)\<close>.
\<close>

definition loadImage :: "browser \<Rightarrow> string \<Rightarrow> thrown + HTMLImageElement" where
  "loadImage b source =
     (case decode b source of
        Some img \<Rightarrow> Inr img
      | None \<Rightarrow> Inl (ErrorObject (''Failed to load image: '' @ take 50 source @ ''...'')))"

definition watermarkText :: string where
  "watermarkText = ''psule.app''"

definition addWatermark :: "browser \<Rightarrow> string \<Rightarrow> thrown + string" where
  "addWatermark b imageUrl =
     (case loadImage b imageUrl of
        Inl err \<Rightarrow> Inl err
      | Inr img \<Rightarrow>
          (if \<not> context2d b (naturalWidth img) (naturalHeight img)
           then Inl (ErrorObject ''Could not get 2D canvas context'')
           else
             (let w = naturalWidth img;
                  h = naturalHeight img;
                  padding = max 20 (real w * 0.02);
                  size = max 18 (real w * 0.03);
                  ctx = \<lparr>fontSize = size, fontFamily = CHR 0x27 # ''Roboto'' @ CHR 0x27 # '', sans-serif'',
                         fillStyle = ''rgba(255, 255, 255, 0.6)'', textAlign = ''right'',
                         textBaseline = ''bottom'', shadowColor = ''rgba(0, 0, 0, 0.5)'',
                         shadowBlur = 5, shadowOffsetX = 1, shadowOffsetY = 1\<rparr>
              in Inr (toDataURL b
                       \<lparr>width = w, height = h,
                        drawn = [DrawImage img 0 0,
                                 FillText watermarkText (real w - padding) (real h - padding) ctx]\<rparr>))))"

section \<open>The status type of the specification\<close>

text \<open>
  The status type as the specification describes it, a sum type with a payload in the
  terminal variants only, and the \<open>GeneratedImage\<close> that stands for each of its values.
\<close>

datatype jobStatus = JobPending | JobDone string | JobError string

fun represent :: "jobStatus \<Rightarrow> GeneratedImage" where
  "represent JobPending = pendingImage"
| "represent (JobDone resultUrl) = doneImage resultUrl"
| "represent (JobError reason) = errorImage reason"

section \<open>Observations on a state\<close>

text \<open>The keys whose \<open>processStyle\<close> call is in flight, in worker order.\<close>

fun running :: "worker list \<Rightarrow> string list" where
  "running [] = []"
| "running (InProcessStyle styleKey t # ws) = styleKey # running ws"
| "running (w # ws) = running ws"

text \<open>\<open>generatedImages[styleKey]?.status === 'pending'\<close>\<close>

definition pendingIn :: "app \<Rightarrow> string \<Rightarrow> bool" where
  "pendingIn a styleKey = (map_option status (map_of (generatedImages a) styleKey) = Some Pending)"

fun isPool :: "origin \<Rightarrow> bool" where
  "isPool (Pool w) = True"
| "isPool Regenerate = False"

text \<open>
  The keys for which a worker has called \<open>processStyle\<close> (in call order), and the keys
  whose entry a worker has updated (in update order).
\<close>

definition poolStarted :: "app \<Rightarrow> string list" where
  "poolStarted a = map snd (filter (\<lambda>p. isPool (fst p)) (started a))"

definition poolWritten :: "app \<Rightarrow> string list" where
  "poolWritten a = map key (filter (\<lambda>u. isPool (who u)) (writes a))"

definition terminal :: "GeneratedImage \<Rightarrow> bool" where
  "terminal g = (status g = Done \<or> status g = Error)"

text \<open>
  An entry is well formed when its optional fields fit its status.
\<close>

definition wellFormed :: "GeneratedImage \<Rightarrow> bool" where
  "wellFormed g =
     (case status g of
        Pending \<Rightarrow> url g = None \<and> error g = None
      | Done \<Rightarrow> url g \<noteq> None \<and> error g = None
      | Error \<Rightarrow> url g = None \<and> error g \<noteq> None)"

text \<open>
  The transition relation of the status of one entry: from \<open>pending\<close> to \<open>done\<close> or
  \<open>error\<close> by anyone, from \<open>done\<close> or \<open>error\<close> back to \<open>pending\<close> by
  \<open>handleRegenerateStyle\<close> only.
\<close>

definition allowed :: "entryUpdate \<Rightarrow> bool" where
  "allowed u =
     (case before u of
        None \<Rightarrow> False
      | Some g \<Rightarrow>
          (status g = Pending \<and> terminal (after u)) \<or>
          (terminal g \<and> status (after u) = Pending \<and> who u = Regenerate))"

text \<open>
  Every key that some piece of code is still responsible for: queued, inside a worker's
  \<open>processStyle\<close>, or inside a call of \<open>handleRegenerateStyle\<close>.
\<close>

definition active :: "app \<Rightarrow> string list" where
  "active a = stylesQueue a @ running (workers a) @ map fst (regenerating a)"

text \<open>
  The bookkeeping of the pool: the keys for which \<open>processStyle\<close> was called, followed by
  the keys still queued, are the style keys in their order; every such call is either
  still in flight or has updated its entry; and a worker returns only from an empty queue.
\<close>

definition accounted :: "app \<Rightarrow> bool" where
  "accounted a =
     (poolStarted a @ stylesQueue a = STYLE_KEYS \<and>
      (\<forall>k. count_list (poolWritten a) k + count_list (running (workers a)) k =
           count_list (poolStarted a) k) \<and>
      (Returned \<in> set (workers a) \<longrightarrow> stylesQueue a = []))"

text \<open>
  Two ways to say who is responsible for a pending entry. \<open>responsible\<close>: every
  \<open>pending\<close> entry has its key queued, in a worker, or in a regeneration.
  \<open>singleWriter\<close>: a key is \<open>pending\<close> exactly when one of them holds it once, and a
  key that is not \<open>pending\<close> is held by none.
\<close>

definition responsible :: "app \<Rightarrow> bool" where
  "responsible a = (\<forall>k. pendingIn a k \<longrightarrow> 0 < count_list (active a) k)"

definition singleWriter :: "app \<Rightarrow> bool" where
  "singleWriter a = (\<forall>k. count_list (active a) k = (if pendingIn a k then 1 else 0))"

text \<open>
  All entries of the result mapping and all recorded updates are well formed.
\<close>

definition wellFormedState :: "app \<Rightarrow> bool" where
  "wellFormedState a =
     ((\<forall>p \<in> set (generatedImages a). wellFormed (snd p)) \<and>
      (\<forall>u \<in> set (writes a). wellFormed (after u)))"

text \<open>
  Every recorded update of a style key's entry follows the transition relation.
\<close>

definition transitionsAllowed :: "app \<Rightarrow> bool" where
  "transitionsAllowed a = (\<forall>u \<in> set (writes a). key u \<in> set STYLE_KEYS \<longrightarrow> allowed u)"

text \<open>The updates recorded, as (who, key, status before, status after).\<close>

definition transitions :: "app \<Rightarrow> (origin \<times> string \<times> ImageStatus option \<times> ImageStatus) list" where
  "transitions a =
     map (\<lambda>u. (who u, key u, map_option status (before u), status (after u))) (writes a)"

text \<open>
  Every style key has an entry with status \<open>done\<close> and a non-empty url. (A JavaScript
  object holds each key once, so having such an entry is the same as looking it up.)
\<close>

definition allDone :: "app \<Rightarrow> bool" where
  "allDone a =
     (\<forall>k \<in> set STYLE_KEYS.
        \<exists>g u. (k, g) \<in> set (generatedImages a) \<and> status g = Done \<and> url g = Some u \<and> u \<noteq> [])"

text \<open>
  The result mapping, the queues, the workers and the regenerations hold style keys only.
\<close>

definition styleKeysOnly :: "app \<Rightarrow> bool" where
  "styleKeysOnly a =
     (fst ` set (generatedImages a) \<subseteq> set STYLE_KEYS \<and>
      set (stylesQueue a) \<subseteq> set STYLE_KEYS \<and>
      set (running (workers a)) \<subseteq> set STYLE_KEYS \<and>
      fst ` set (regenerating a) \<subseteq> set STYLE_KEYS \<and>
      (\<forall>p \<in> set (earlier a).
         set (fst p) \<subseteq> set STYLE_KEYS \<and> set (running (fst (snd p))) \<subseteq> set STYLE_KEYS))"

text \<open>
  Nothing is under way: no key is queued, no call of \<open>processStyle\<close> or
  \<open>handleRegenerateStyle\<close> is in flight, and no call of \<open>handleGenerateClick\<close>, the
  latest or an earlier one, waits for its workers.
\<close>

definition quiet :: "app \<Rightarrow> bool" where
  "quiet a =
     (active a = [] \<and> \<not> awaitingAll a \<and>
      (\<forall>p \<in> set (earlier a). fst p = [] \<and> running (fst (snd p)) = [] \<and> \<not> snd (snd p)))"

text \<open>
  The two things that replace the result mapping by the empty one: the \<open>onloadend\<close>
  callback and \<open>handleReset\<close>.
\<close>

fun emptiesMapping :: "action \<Rightarrow> bool" where
  "emptiesMapping (FileLoaded result) = True"
| "emptiesMapping ResetClick = True"
| "emptiesMapping x = False"

text \<open>
  A session is calm when the result mapping is emptied only while nothing is under way.
\<close>

fun calm :: "action list \<Rightarrow> app \<Rightarrow> bool" where
  "calm [] a = True"
| "calm (x # xs) a =
     ((emptiesMapping x \<longrightarrow> quiet a) \<and>
      (case act x a of None \<Rightarrow> True | Some a' \<Rightarrow> calm xs a'))"

text \<open>The cards of the styles are rendered.\<close>

definition cardsShown :: "app \<Rightarrow> bool" where
  "cardsShown a = (appState a = Generating \<or> appState a = ResultsShown)"

text \<open>
  What holds in every state of a calm session: the two invariants on pending entries and
  on updates; only style keys, and no earlier call of \<open>handleGenerateClick\<close>; while the
  cards are shown, a cropped image and an entry for every style key; and nothing under
  way while the cards are not shown.
\<close>

definition orderly :: "app \<Rightarrow> bool" where
  "orderly a =
     (singleWriter a \<and> transitionsAllowed a \<and> styleKeysOnly a \<and> earlier a = [] \<and>
      (cardsShown a \<longrightarrow>
         truthy (croppedImageForDisplay a) \<and>
         (\<forall>k \<in> set STYLE_KEYS. map_of (generatedImages a) k \<noteq> None)) \<and>
      (\<not> cardsShown a \<longrightarrow> quiet a))"

section \<open>Running the pool to completion\<close>

text \<open>
  The steps that remain once no key is queued or in flight: every worker at the head of
  its loop finds the queue empty and returns, then \<open>Promise.all\<close> resolves.
\<close>

definition drain :: "app \<Rightarrow> event list" where
  "drain a =
     map Loop (filter (\<lambda>w. workers a ! w = AtLoop) [0..<length (workers a)]) @ [AllSettled]"

text \<open>
  A bound on the steps the pool can still take: three per queued key (claim it, settle
  the generation, settle the watermark), the rest of each call in flight, one return per
  worker, and the completion.
\<close>

fun workerWeight :: "worker \<Rightarrow> nat" where
  "workerWeight AtLoop = 1"
| "workerWeight (InProcessStyle styleKey AwaitGenerate) = 3"
| "workerWeight (InProcessStyle styleKey (AwaitWatermark resultUrl)) = 2"
| "workerWeight Returned = 0"

definition remaining :: "app \<Rightarrow> nat" where
  "remaining a =
     3 * length (stylesQueue a) + sum_list (map workerWeight (workers a)) +
     (if awaitingAll a then 1 else 0)"

text \<open>
  One way for the pool to run on: the first worker that has not returned takes its next
  step, with the promise it waits for settled as \<open>outcome\<close> says for its key and
  suspension point; when all have returned, \<open>Promise.all\<close> resolves.
\<close>

definition nextEvent :: "(string \<Rightarrow> task \<Rightarrow> thrown + string) \<Rightarrow> app \<Rightarrow> event" where
  "nextEvent outcome a =
     (case find (\<lambda>w. workers a ! w \<noteq> Returned) [0..<length (workers a)] of
        None \<Rightarrow> AllSettled
      | Some w \<Rightarrow>
          (case workers a ! w of
             AtLoop \<Rightarrow> Loop w
           | InProcessStyle styleKey t \<Rightarrow> Settle w (outcome styleKey t)
           | Returned \<Rightarrow> AllSettled))"

fun schedule :: "(string \<Rightarrow> task \<Rightarrow> thrown + string) \<Rightarrow> nat \<Rightarrow> app \<Rightarrow> event list" where
  "schedule outcome 0 a = []"
| "schedule outcome (Suc n) a =
     (if awaitingAll a then
        (case step (nextEvent outcome a) a of
           None \<Rightarrow> []
         | Some a' \<Rightarrow> nextEvent outcome a # schedule outcome n a')
      else [])"

section \<open>Example states and runs\<close>

text \<open>
  A state of the component after a photo was uploaded and cropped, and one complete run of
  the pool from it, in which the second key fails in the generation call with an
  \<open>Error\<close>, the fourth fails in the watermark call with a value that is not an
  \<open>Error\<close>, and the other seven succeed.
\<close>

definition uploadedApp :: app where
  "uploadedApp =
     \<lparr>uploadedImage = Some ''data:image/png;base64,AAAAAA'',
      croppedImageForDisplay = Some ''data:image/png;base64,AAAA'', generatedImages = [],
      isDownloading = False, appState = ImageUploaded, stylesQueue = [], workers = [],
      awaitingAll = False, regenerating = [], reading = 0, earlier = [],
      signalled = 0, started = [], writes = []\<rparr>"

definition fullRun :: "event list" where
  "fullRun =
     [Loop 0, Loop 1, Loop 2,
      Settle 1 (Inl (ErrorObject ''quota exceeded'')), Loop 1,
      Settle 0 (Inr ''data:a''), Settle 2 (Inr ''data:c''), Settle 2 (Inr ''data:c+mark''), Loop 2,
      Settle 0 (Inr ''data:a+mark''), Loop 0,
      Settle 1 (Inr ''data:d''), Settle 1 (Inl OtherValue), Loop 1,
      Settle 2 (Inr ''data:e''), Settle 2 (Inr ''data:e+mark''), Loop 2,
      Settle 0 (Inr ''data:f''), Settle 0 (Inr ''data:f+mark''), Loop 0,
      Settle 1 (Inr ''data:g''), Settle 1 (Inr ''data:g+mark''), Loop 1,
      Settle 0 (Inr ''data:i''), Settle 0 (Inr ''data:i+mark''), Loop 0,
      Settle 2 (Inr ''data:h''), Settle 2 (Inr ''data:h+mark''), Loop 2,
      AllSettled]"

text \<open>
  A session in which a regeneration outlives its photo: after a complete run the user
  regenerates the first style, starts over while that call is in flight, uploads and
  crops another photo and generates again; the old call then settles, and after it the
  new worker's call for the same key.
\<close>

definition staleSession :: "action list" where
  "staleSession =
     [FileChosen, FileLoaded (Some ''data:photo1''), CropConfirm ''data:crop1'', GenerateClick] @
     map Internal fullRun @
     [Internal (RegenerateClick ''digital-painting''), ResetClick,
      FileChosen, FileLoaded (Some ''data:photo2''), CropConfirm ''data:crop2'', GenerateClick,
      Internal (Loop 0),
      Internal (RegenerateSettle 0 (Inr ''data:old'')),
      Internal (RegenerateSettle 0 (Inr ''data:old+mark'')),
      Internal (Settle 0 (Inr ''data:new'')),
      Internal (Settle 0 (Inr ''data:new+mark''))]"

text \<open>
  A state in which all nine images are done, and a \<open>createAlbumPage\<close> that succeeds.
\<close>

definition finishedApp :: app where
  "finishedApp =
     uploadedApp\<lparr>appState := ResultsShown,
       generatedImages := map (\<lambda>k. (k, doneImage (''data:'' @ k))) STYLE_KEYS\<rparr>"

definition albumReady :: "(string \<times> string) list \<Rightarrow> thrown + string" where
  "albumReady imageData = Inr ''data:album''"

text \<open>
  A value of type \<open>GeneratedImage\<close> that the interface admits: \<open>pending\<close>, with a url and
  with an error.
\<close>

definition contradictoryImage :: GeneratedImage where
  "contradictoryImage =
     \<lparr>status = Pending, url = Some ''data:image/jpeg;base64,AAAA'',
      error = Some ''quota exceeded''\<rparr>"

text \<open>
  A browser in which the image loads and no 2D context is to be had, and one in which
  everything works.
\<close>

definition starvedBrowser :: browser where
  "starvedBrowser =
     \<lparr>decode = (\<lambda>source. Some \<lparr>src = source, naturalWidth = 1024, naturalHeight = 1024\<rparr>),
      context2d = (\<lambda>w h. False),
      toDataURL = (\<lambda>c. ''data:image/jpeg;base64,/9j/'')\<rparr>"

definition workingBrowser :: browser where
  "workingBrowser =
     \<lparr>decode = (\<lambda>source. Some \<lparr>src = source, naturalWidth = 1024, naturalHeight = 768\<rparr>),
      context2d = (\<lambda>w h. True),
      toDataURL = (\<lambda>c. ''data:image/jpeg;base64,/9j/'')\<rparr>"

text \<open>
  A complete run of the pool in which every call succeeds, and the session that leads to
  it from the mounted component.
\<close>

definition successRun :: "event list" where
  "successRun =
     concat (replicate 3
       [Loop 0, Loop 1, Loop 2,
        Settle 0 (Inr ''data:generated''), Settle 0 (Inr ''data:watermarked''),
        Settle 1 (Inr ''data:generated''), Settle 1 (Inr ''data:watermarked''),
        Settle 2 (Inr ''data:generated''), Settle 2 (Inr ''data:watermarked'')]) @
     [Loop 0, Loop 1, Loop 2, AllSettled]"

definition startSession :: "action list" where
  "startSession =
     [FileChosen, FileLoaded (Some ''data:photo''), CropConfirm ''data:cropped'', GenerateClick]"

text \<open>
  A calm session: a complete run, "Start Over" once everything has settled, another photo
  and another complete run, and then a regeneration of the style that failed.
\<close>

definition calmSession :: "action list" where
  "calmSession =
     startSession @ map Internal fullRun @ [ResetClick] @
     startSession @ map Internal (fullRun @ [RegenerateClick ''watercolor''])"

text \<open>
  A session in which the read of a second file ends while the pool runs: two files are
  chosen one after the other, the first read ends, the photo is cropped and the styles
  are generated; the second read ends while the first worker waits for its image.
\<close>

definition lateLoadSession :: "action list" where
  "lateLoadSession =
     [FileChosen, FileChosen, FileLoaded (Some ''data:photo1''), CropConfirm ''data:crop1'',
      GenerateClick, Internal (Loop 0),
      FileLoaded (Some ''data:photo2''),
      Internal (Settle 0 (Inr ''data:a'')), Internal (Settle 0 (Inr ''data:a+mark''))]"

section \<open>Facts about the style table and about executions\<close>

lemma STYLE_KEYS_eq: "STYLE_KEYS = [''digital-painting'', ''watercolor'', ''sketch'', ''vaporwave'', ''3d-render'', ''impressionism'', ''pop-art'', ''anime'', ''comic-book'']"
  by (simp add: STYLE_KEYS_def STYLES_def)

lemma distinct_STYLE_KEYS: "distinct STYLE_KEYS"
  by (simp add: STYLE_KEYS_eq)

lemma length_STYLE_KEYS: "length STYLE_KEYS = 9"
  by (simp add: STYLE_KEYS_eq)

lemma STYLE_KEYS_nonempty: "k \<in> set STYLE_KEYS \<Longrightarrow> k \<noteq> []"
  by (auto simp add: STYLE_KEYS_eq)

lemma STYLES_lookup: "(map_of STYLES k = None) = (k \<notin> set STYLE_KEYS)"
  by (simp add: STYLE_KEYS_def map_of_eq_None_iff)

lemma exec_append: "exec (es @ fs) a = (case exec es a of None \<Rightarrow> None | Some a' \<Rightarrow> exec fs a')"
  by (induction es arbitrary: a) (auto split: option.splits)

lemma exec_invariant:
  assumes "\<And>e a a'. P a \<Longrightarrow> step e a = Some a' \<Longrightarrow> P a'"
  shows "exec es a = Some a' \<Longrightarrow> P a \<Longrightarrow> P a'"
proof (induction es arbitrary: a)
  case Nil then show ?case by simp
next
  case (Cons e es)
  then show ?case using assms by (auto split: option.splits)
qed

lemma setGeneratedImage_fields:
  "croppedImageForDisplay (setGeneratedImage actor k g a) = croppedImageForDisplay a"
  "stylesQueue (setGeneratedImage actor k g a) = stylesQueue a"
  "workers (setGeneratedImage actor k g a) = workers a"
  "awaitingAll (setGeneratedImage actor k g a) = awaitingAll a"
  "regenerating (setGeneratedImage actor k g a) = regenerating a"
  "signalled (setGeneratedImage actor k g a) = signalled a"
  "started (setGeneratedImage actor k g a) = started a"
  "appState (setGeneratedImage actor k g a) = appState a"
  "generatedImages (setGeneratedImage actor k g a) = AList.update k g (generatedImages a)"
  "writes (setGeneratedImage actor k g a) = writes a @ [\<lparr>who = actor, key = k, before = map_of (generatedImages a) k, after = g\<rparr>]"
  by (simp_all add: setGeneratedImage_def)

lemma resume_cases:
  "resume actor k t outcome a = (a', t') \<Longrightarrow>
     (\<exists>err. outcome = Inl err \<and> a' = setGeneratedImage actor k (errorImage (errorMessage err)) a \<and> t' = None) \<or>
     (\<exists>u. outcome = Inr u \<and> t = AwaitGenerate \<and> a' = a \<and> t' = Some (AwaitWatermark u)) \<or>
     (\<exists>u v. outcome = Inr v \<and> t = AwaitWatermark u \<and> a' = setGeneratedImage actor k (doneImage v) a \<and> t' = None)"
  by (cases "(actor, k, t, outcome, a)" rule: resume.cases) auto

text \<open>
  Every step is one of fifteen cases, each a plain update of the state.
\<close>

lemma step_elim [consumes 1, case_names LoopReturn LoopSkip LoopThrow LoopStart SettleFail SettleGenerated SettleDone Completion RegenNoImage RegenPending RegenThrow RegenStart RegenFail RegenGenerated RegenDone]:
  assumes "step e a = Some a'"
  obtains
    (LoopReturn) w where "e = Loop w" "w < length (workers a)" "workers a ! w = AtLoop"
      "stylesQueue a = []" "a' = a\<lparr>workers := (workers a)[w := Returned]\<rparr>"
  | (LoopSkip) w rest where "e = Loop w" "w < length (workers a)" "workers a ! w = AtLoop"
      "stylesQueue a = [] # rest" "a' = a\<lparr>stylesQueue := rest\<rparr>"
  | (LoopThrow) w k rest where "e = Loop w" "w < length (workers a)" "workers a ! w = AtLoop"
      "stylesQueue a = k # rest" "k \<noteq> []" "k \<notin> set STYLE_KEYS"
      "a' = setGeneratedImage (Pool w) k (errorImage (errorMessage promptTypeError)) (a\<lparr>stylesQueue := rest\<rparr>)"
  | (LoopStart) w k rest where "e = Loop w" "w < length (workers a)" "workers a ! w = AtLoop"
      "stylesQueue a = k # rest" "k \<noteq> []" "k \<in> set STYLE_KEYS"
      "a' = a\<lparr>stylesQueue := rest, workers := (workers a)[w := InProcessStyle k AwaitGenerate],
              started := started a @ [(Pool w, k)]\<rparr>"
  | (SettleFail) w k t err where "e = Settle w (Inl err)" "w < length (workers a)"
      "workers a ! w = InProcessStyle k t"
      "a' = (setGeneratedImage (Pool w) k (errorImage (errorMessage err)) a)\<lparr>workers := (workers a)[w := AtLoop]\<rparr>"
  | (SettleGenerated) w k u where "e = Settle w (Inr u)" "w < length (workers a)"
      "workers a ! w = InProcessStyle k AwaitGenerate"
      "a' = a\<lparr>workers := (workers a)[w := InProcessStyle k (AwaitWatermark u)]\<rparr>"
  | (SettleDone) w k u v where "e = Settle w (Inr v)" "w < length (workers a)"
      "workers a ! w = InProcessStyle k (AwaitWatermark u)"
      "a' = (setGeneratedImage (Pool w) k (doneImage v) a)\<lparr>workers := (workers a)[w := AtLoop]\<rparr>"
  | (Completion) "e = AllSettled" "awaitingAll a" "\<forall>x \<in> set (workers a). x = Returned"
      "a' = a\<lparr>appState := ResultsShown, awaitingAll := False, signalled := Suc (signalled a)\<rparr>"
  | (RegenNoImage) k where "e = RegenerateClick k" "\<not> truthy (croppedImageForDisplay a)" "a' = a"
  | (RegenPending) k where "e = RegenerateClick k" "truthy (croppedImageForDisplay a)"
      "pendingIn a k" "a' = a"
  | (RegenThrow) k where "e = RegenerateClick k" "truthy (croppedImageForDisplay a)"
      "\<not> pendingIn a k" "k \<notin> set STYLE_KEYS"
      "a' = setGeneratedImage Regenerate k (errorImage (errorMessage promptTypeError))
              (setGeneratedImage Regenerate k pendingImage a)"
  | (RegenStart) k where "e = RegenerateClick k" "truthy (croppedImageForDisplay a)"
      "\<not> pendingIn a k" "k \<in> set STYLE_KEYS"
      "a' = (setGeneratedImage Regenerate k pendingImage a)
              \<lparr>regenerating := regenerating a @ [(k, AwaitGenerate)],
               started := started a @ [(Regenerate, k)]\<rparr>"
  | (RegenFail) i k t err where "e = RegenerateSettle i (Inl err)" "i < length (regenerating a)"
      "regenerating a ! i = (k, t)"
      "a' = (setGeneratedImage Regenerate k (errorImage (errorMessage err)) a)
              \<lparr>regenerating := take i (regenerating a) @ drop (Suc i) (regenerating a)\<rparr>"
  | (RegenGenerated) i k u where "e = RegenerateSettle i (Inr u)" "i < length (regenerating a)"
      "regenerating a ! i = (k, AwaitGenerate)"
      "a' = a\<lparr>regenerating := (regenerating a)[i := (k, AwaitWatermark u)]\<rparr>"
  | (RegenDone) i k u v where "e = RegenerateSettle i (Inr v)" "i < length (regenerating a)"
      "regenerating a ! i = (k, AwaitWatermark u)"
      "a' = (setGeneratedImage Regenerate k (doneImage v) a)
              \<lparr>regenerating := take i (regenerating a) @ drop (Suc i) (regenerating a)\<rparr>"
proof (cases e)
  case (Loop w)
  with assms have w: "w < length (workers a)" "workers a ! w = AtLoop" and a': "a' = workerLoop w a"
    by (auto split: if_splits)
  show ?thesis
  proof (cases "stylesQueue a")
    case Nil
    with a' have "a' = a\<lparr>workers := (workers a)[w := Returned]\<rparr>" by (simp add: workerLoop_def)
    with Loop w Nil show ?thesis by (rule LoopReturn)
  next
    case (Cons k rest)
    show ?thesis
    proof (cases "k = []")
      case True
      with a' Cons have "a' = a\<lparr>stylesQueue := rest\<rparr>" by (simp add: workerLoop_def)
      with Loop w Cons True show ?thesis using LoopSkip by blast
    next
      case False
      show ?thesis
      proof (cases "k \<in> set STYLE_KEYS")
        case True
        then obtain st where "map_of STYLES k = Some st" using STYLES_lookup[of k] by auto
        with a' Cons False have "a' = a\<lparr>stylesQueue := rest, workers := (workers a)[w := InProcessStyle k AwaitGenerate],
              started := started a @ [(Pool w, k)]\<rparr>" by (simp add: workerLoop_def processStyle_def)
        with Loop w Cons False True show ?thesis using LoopStart by blast
      next
        case notin: False
        then have "map_of STYLES k = None" using STYLES_lookup[of k] by auto
        with a' Cons False have "a' = setGeneratedImage (Pool w) k (errorImage (errorMessage promptTypeError)) (a\<lparr>stylesQueue := rest\<rparr>)"
          by (simp add: workerLoop_def processStyle_def)
        with Loop w Cons False notin show ?thesis using LoopThrow by blast
      qed
    qed
  qed
next
  case (Settle w outcome)
  with assms have w: "w < length (workers a)" by (auto split: if_splits)
  with assms Settle obtain k t where kt: "workers a ! w = InProcessStyle k t"
    by (cases "workers a ! w") auto
  obtain a1 t1 where r: "resume (Pool w) k t outcome a = (a1, t1)" by (cases "resume (Pool w) k t outcome a")
  from resume_cases[OF r] show ?thesis
  proof (elim disjE exE conjE)
    fix err assume "outcome = Inl err" "a1 = setGeneratedImage (Pool w) k (errorImage (errorMessage err)) a" "t1 = None"
    with assms Settle w kt r show ?thesis using SettleFail by (simp add: setGeneratedImage_fields)
  next
    fix u assume "outcome = Inr u" "t = AwaitGenerate" "a1 = a" "t1 = Some (AwaitWatermark u)"
    with assms Settle w kt r show ?thesis using SettleGenerated by simp
  next
    fix u v assume "outcome = Inr v" "t = AwaitWatermark u" "a1 = setGeneratedImage (Pool w) k (doneImage v) a" "t1 = None"
    with assms Settle w kt r show ?thesis using SettleDone by (simp add: setGeneratedImage_fields)
  qed
next
  case AllSettled
  with assms show ?thesis using Completion by (auto split: if_splits)
next
  case (RegenerateClick k)
  with assms have a': "a' = handleRegenerateStyle k a" by simp
  show ?thesis
  proof (cases "truthy (croppedImageForDisplay a)")
    case False
    with a' RegenerateClick show ?thesis using RegenNoImage by (simp add: handleRegenerateStyle_def)
  next
    case True
    show ?thesis
    proof (cases "pendingIn a k")
      case pend: True
      with a' True have "a' = a" by (auto simp add: handleRegenerateStyle_def pendingIn_def)
      with RegenerateClick True pend show ?thesis using RegenPending by blast
    next
      case np: False
      show ?thesis
      proof (cases "k \<in> set STYLE_KEYS")
        case inS: True
        then obtain st where "map_of STYLES k = Some st" using STYLES_lookup[of k] by auto
        with a' True np have "a' = (setGeneratedImage Regenerate k pendingImage a)
              \<lparr>regenerating := regenerating a @ [(k, AwaitGenerate)],
               started := started a @ [(Regenerate, k)]\<rparr>"
          by (auto simp add: handleRegenerateStyle_def Let_def setGeneratedImage_fields pendingIn_def)
        with RegenerateClick True np inS show ?thesis using RegenStart by blast
      next
        case notin: False
        then have "map_of STYLES k = None" using STYLES_lookup[of k] by auto
        with a' True np have "a' = setGeneratedImage Regenerate k (errorImage (errorMessage promptTypeError))
              (setGeneratedImage Regenerate k pendingImage a)"
          by (auto simp add: handleRegenerateStyle_def Let_def pendingIn_def)
        with RegenerateClick True np notin show ?thesis using RegenThrow by blast
      qed
    qed
  qed
next
  case (RegenerateSettle i outcome)
  with assms have i: "i < length (regenerating a)" by (auto split: if_splits)
  obtain k t where kt: "regenerating a ! i = (k, t)" by (cases "regenerating a ! i")
  obtain a1 t1 where r: "resume Regenerate k t outcome a = (a1, t1)" by (cases "resume Regenerate k t outcome a")
  from resume_cases[OF r] show ?thesis
  proof (elim disjE exE conjE)
    fix err assume "outcome = Inl err" "a1 = setGeneratedImage Regenerate k (errorImage (errorMessage err)) a" "t1 = None"
    with assms RegenerateSettle i kt r show ?thesis using RegenFail by (simp add: setGeneratedImage_fields)
  next
    fix u assume "outcome = Inr u" "t = AwaitGenerate" "a1 = a" "t1 = Some (AwaitWatermark u)"
    with assms RegenerateSettle i kt r show ?thesis using RegenGenerated by simp
  next
    fix u v assume "outcome = Inr v" "t = AwaitWatermark u" "a1 = setGeneratedImage Regenerate k (doneImage v) a" "t1 = None"
    with assms RegenerateSettle i kt r show ?thesis using RegenDone by (simp add: setGeneratedImage_fields)
  qed
qed

section \<open>Invariants of the worker pool\<close>

subsection \<open>Bookkeeping of calls and updates\<close>

lemma running_update:
  "w < length ws \<Longrightarrow>
   count_list (running (ws[w := x])) k + count_list (running [ws ! w]) k =
   count_list (running ws) k + count_list (running [x]) k"
proof (induction ws arbitrary: w)
  case Nil then show ?case by simp
next
  case (Cons y ys)
  show ?case
  proof (cases w)
    case 0
    then show ?thesis by (cases y; cases x) auto
  next
    case (Suc n)
    with Cons.prems have "n < length ys" by simp
    from Cons.IH[OF this] Suc show ?thesis by (cases y) auto
  qed
qed

lemma running_nil: "(running ws = []) = (\<forall>x \<in> set ws. \<forall>k t. x \<noteq> InProcessStyle k t)"
  by (induction ws rule: running.induct) auto

lemma length_running: "length (running ws) \<le> length ws"
  by (induction ws rule: running.induct) auto

lemma running_update_same:
  "w < length ws \<Longrightarrow> running [ws ! w] = running [x] \<Longrightarrow> running (ws[w := x]) = running ws"
proof (induction ws arbitrary: w)
  case Nil then show ?case by simp
next
  case (Cons y ys)
  show ?case
  proof (cases w)
    case 0
    with Cons.prems show ?thesis by (cases y; cases x) auto
  next
    case (Suc n)
    with Cons.prems Cons.IH[of n] show ?thesis by (cases y) auto
  qed
qed

lemma running_update_enter:
  "w < length ws \<Longrightarrow> ws ! w = AtLoop \<Longrightarrow>
   count_list (running (ws[w := InProcessStyle k t])) k' =
   count_list (running ws) k' + (if k' = k then 1 else 0)"
  using running_update[of w ws "InProcessStyle k t" k'] by auto

lemma running_update_leave:
  "w < length ws \<Longrightarrow> ws ! w = InProcessStyle k t \<Longrightarrow>
   count_list (running (ws[w := AtLoop])) k' + (if k' = k then 1 else 0) =
   count_list (running ws) k'"
  using running_update[of w ws AtLoop k'] by auto

lemma length_workers_step:
  assumes "step e a = Some a'"
  shows "length (workers a') = length (workers a)"
  using assms by (cases rule: step_elim) (simp_all add: setGeneratedImage_def)

lemma completion_count_step:
  assumes "step e a = Some a'"
  shows "signalled a' + (if awaitingAll a' then 1 else 0) = signalled a + (if awaitingAll a then 1 else 0)"
  using assms by (cases rule: step_elim) (simp_all add: setGeneratedImage_def)

lemma not_Returned_awaiting:
  assumes "\<not> awaitingAll a \<longrightarrow> (\<forall>x \<in> set (workers a). x = Returned)"
    and "w < length (workers a)" and "workers a ! w \<noteq> Returned"
  shows "awaitingAll a"
  using assms nth_mem by blast

lemma all_Returned_update:
  "\<forall>x \<in> set ws. x = Returned \<Longrightarrow> \<forall>x \<in> set (ws[w := Returned]). x = Returned"
  by (metis insert_iff set_update_subset_insert subsetD)

lemma returned_after_completion_step:
  assumes "step e a = Some a'"
    and inv: "\<not> awaitingAll a \<longrightarrow> (\<forall>x \<in> set (workers a). x = Returned)"
  shows "\<not> awaitingAll a' \<longrightarrow> (\<forall>x \<in> set (workers a'). x = Returned)"
  using assms(1)
proof (cases rule: step_elim)
  case (LoopReturn w)
  with inv show ?thesis using all_Returned_update[of "workers a" w] by simp
next
  case (LoopStart w k rest)
  with not_Returned_awaiting[OF inv, of w] show ?thesis by simp
next
  case (SettleFail w k t err)
  with not_Returned_awaiting[OF inv, of w] show ?thesis by (simp add: setGeneratedImage_def)
next
  case (SettleGenerated w k u)
  with not_Returned_awaiting[OF inv, of w] show ?thesis by simp
next
  case (SettleDone w k u v)
  with not_Returned_awaiting[OF inv, of w] show ?thesis by (simp add: setGeneratedImage_def)
qed (use inv in \<open>simp_all add: setGeneratedImage_def\<close>)

lemma queue_STYLE_KEYS:
  "accounted a \<Longrightarrow> k \<in> set (stylesQueue a) \<Longrightarrow> k \<in> set STYLE_KEYS"
  unfolding accounted_def by (metis Un_iff set_append)

lemma Returned_update:
  "Returned \<in> set (ws[w := x]) \<Longrightarrow> x \<noteq> Returned \<Longrightarrow> Returned \<in> set ws"
  by (metis insert_iff set_update_subset_insert subsetD)

lemma accountedI:
  assumes "poolStarted a @ stylesQueue a = STYLE_KEYS"
    and "\<And>k. count_list (poolWritten a) k + count_list (running (workers a)) k =
           count_list (poolStarted a) k"
    and "Returned \<in> set (workers a) \<Longrightarrow> stylesQueue a = []"
  shows "accounted a"
  using assms by (simp add: accounted_def)

lemma accounted_step:
  assumes "step e a = Some a'" and inv: "accounted a"
  shows "accounted a'"
proof -
  from inv have q: "poolStarted a @ stylesQueue a = STYLE_KEYS"
    and cnt: "\<And>k. count_list (poolWritten a) k + count_list (running (workers a)) k =
           count_list (poolStarted a) k"
    and ret: "Returned \<in> set (workers a) \<Longrightarrow> stylesQueue a = []"
    by (simp_all add: accounted_def)
  from assms(1) show ?thesis
  proof (cases rule: step_elim)
    case (LoopReturn w)
    then have "running ((workers a)[w := Returned]) = running (workers a)"
      by (simp add: running_update_same)
    with inv LoopReturn show ?thesis
      by (simp add: accounted_def poolStarted_def poolWritten_def)
  next
    case (LoopSkip w rest)
    with inv have "[] \<in> set STYLE_KEYS" using queue_STYLE_KEYS[of a "[]"] by simp
    then show ?thesis using STYLE_KEYS_nonempty by blast
  next
    case (LoopThrow w k rest)
    with inv have "k \<in> set STYLE_KEYS" using queue_STYLE_KEYS[of a k] by simp
    with LoopThrow show ?thesis by simp
  next
    case (LoopStart w k rest)
    from ret LoopStart have nr: "Returned \<notin> set (workers a)" by auto
    show ?thesis
    proof (rule accountedI)
      show "poolStarted a' @ stylesQueue a' = STYLE_KEYS"
        using q LoopStart by (simp add: poolStarted_def)
      show "count_list (poolWritten a') k' + count_list (running (workers a')) k' =
           count_list (poolStarted a') k'" for k'
        using cnt[of k'] LoopStart running_update_enter[of w "workers a" k AwaitGenerate k']
        by (cases "k' = k") (simp_all add: poolStarted_def poolWritten_def)
      show "stylesQueue a' = []" if "Returned \<in> set (workers a')"
        using that nr LoopStart Returned_update[of "workers a" w "InProcessStyle k AwaitGenerate"]
        by simp
    qed
  next
    case (SettleFail w k t err)
    show ?thesis
    proof (rule accountedI)
      show "poolStarted a' @ stylesQueue a' = STYLE_KEYS"
        using q SettleFail by (simp add: poolStarted_def setGeneratedImage_def)
      show "count_list (poolWritten a') k' + count_list (running (workers a')) k' =
           count_list (poolStarted a') k'" for k'
        using cnt[of k'] SettleFail running_update_leave[of w "workers a" k t k']
        by (cases "k' = k") (simp_all add: poolStarted_def poolWritten_def setGeneratedImage_def)
      show "stylesQueue a' = []" if "Returned \<in> set (workers a')"
        using that ret SettleFail Returned_update[of "workers a" w AtLoop]
        by (simp add: setGeneratedImage_def)
    qed
  next
    case (SettleGenerated w k u)
    then have same: "running ((workers a)[w := InProcessStyle k (AwaitWatermark u)]) = running (workers a)"
      by (simp add: running_update_same)
    show ?thesis
    proof (rule accountedI)
      show "poolStarted a' @ stylesQueue a' = STYLE_KEYS"
        using q SettleGenerated by (simp add: poolStarted_def)
      show "count_list (poolWritten a') k' + count_list (running (workers a')) k' =
           count_list (poolStarted a') k'" for k'
        using cnt[of k'] SettleGenerated same
        by (simp add: poolStarted_def poolWritten_def)
      show "stylesQueue a' = []" if "Returned \<in> set (workers a')"
        using that ret SettleGenerated
          Returned_update[of "workers a" w "InProcessStyle k (AwaitWatermark u)"]
        by simp
    qed
  next
    case (SettleDone w k u v)
    show ?thesis
    proof (rule accountedI)
      show "poolStarted a' @ stylesQueue a' = STYLE_KEYS"
        using q SettleDone by (simp add: poolStarted_def setGeneratedImage_def)
      show "count_list (poolWritten a') k' + count_list (running (workers a')) k' =
           count_list (poolStarted a') k'" for k'
        using cnt[of k'] SettleDone running_update_leave[of w "workers a" k "AwaitWatermark u" k']
        by (cases "k' = k") (simp_all add: poolStarted_def poolWritten_def setGeneratedImage_def)
      show "stylesQueue a' = []" if "Returned \<in> set (workers a')"
        using that ret SettleDone Returned_update[of "workers a" w AtLoop]
        by (simp add: setGeneratedImage_def)
    qed
  qed (use inv in \<open>simp_all add: accounted_def poolStarted_def poolWritten_def setGeneratedImage_def\<close>)
qed

lemma accounted_start:
  "truthy (croppedImageForDisplay a) \<Longrightarrow> accounted (handleGenerateClick a)"
  by (simp add: accounted_def handleGenerateClick_def poolStarted_def poolWritten_def
      concurrencyLimit_def numeral_3_eq_3)

lemma count_list_length:
  assumes "\<And>k. count_list xs k + count_list ys k = count_list zs k"
  shows "length xs + length ys = length zs"
proof -
  have "mset xs + mset ys = mset zs"
    by (rule multiset_eqI) (simp add: assms count_mset)
  then have "size (mset xs + mset ys) = size (mset zs)" by simp
  then show ?thesis by simp
qed

lemma all_Returned_running: "\<forall>x \<in> set ws. x = Returned \<Longrightarrow> running ws = []"
  by (auto simp add: running_nil)

lemma exec_preserves:
  assumes "exec es a = Some a'" and "P a" and "\<And>e x x'. P x \<Longrightarrow> step e x = Some x' \<Longrightarrow> P x'"
  shows "P a'"
  using exec_invariant[of P es a a'] assms by blast

lemma count_list_distinct: "distinct xs \<Longrightarrow> x \<in> set xs \<Longrightarrow> count_list xs x = 1"
  by (induction xs) auto

lemma dispatch_invariants:
  assumes "truthy (croppedImageForDisplay a)" and "exec es (handleGenerateClick a) = Some s"
  shows "accounted s" and "length (workers s) = concurrencyLimit"
    and "signalled s + (if awaitingAll s then 1 else 0) = 1"
    and "\<not> awaitingAll s \<longrightarrow> (\<forall>x \<in> set (workers s). x = Returned)"
proof -
  let ?d = "handleGenerateClick a"
  show "accounted s"
    using assms(2) accounted_start[OF assms(1)] accounted_step by (rule exec_preserves)
  have "length (workers s) = length (workers ?d)"
    using assms(2) by (rule exec_preserves) (simp_all add: length_workers_step)
  then show "length (workers s) = concurrencyLimit"
    using assms(1) by (simp add: handleGenerateClick_def)
  have "signalled s + (if awaitingAll s then 1 else 0) = signalled ?d + (if awaitingAll ?d then 1 else 0)"
    using assms(2) by (rule exec_preserves) (simp_all add: completion_count_step)
  then show "signalled s + (if awaitingAll s then 1 else 0) = 1"
    using assms(1) by (simp add: handleGenerateClick_def)
  have "\<not> awaitingAll ?d \<longrightarrow> (\<forall>x \<in> set (workers ?d). x = Returned)"
    using assms(1) by (simp add: handleGenerateClick_def)
  with assms(2) show "\<not> awaitingAll s \<longrightarrow> (\<forall>x \<in> set (workers s). x = Returned)"
    by (rule exec_preserves) (rule returned_after_completion_step)
qed

lemma finished_pool:
  assumes "accounted s" and "workers s \<noteq> []" and "\<forall>x \<in> set (workers s). x = Returned"
  shows "stylesQueue s = []" and "poolStarted s = STYLE_KEYS"
    and "count_list (poolWritten s) k = count_list STYLE_KEYS k"
proof -
  from assms(2,3) have "Returned \<in> set (workers s)" by (cases "workers s") auto
  with assms(1) show q: "stylesQueue s = []" by (simp add: accounted_def)
  with assms(1) show p: "poolStarted s = STYLE_KEYS" by (simp add: accounted_def)
  from assms(1) have "count_list (poolWritten s) k + count_list (running (workers s)) k = count_list (poolStarted s) k"
    by (simp add: accounted_def)
  with p all_Returned_running[OF assms(3)] show "count_list (poolWritten s) k = count_list STYLE_KEYS k" by simp
qed

lemma in_flight_count:
  "accounted s \<Longrightarrow> length (poolStarted s) = length (poolWritten s) + length (running (workers s))"
  using count_list_length[of "poolWritten s" "running (workers s)" "poolStarted s"]
  by (simp add: accounted_def)

subsection \<open>Who is responsible for a pending entry\<close>

lemma pendingIn_setGeneratedImage:
  "pendingIn (setGeneratedImage actor k g a) k' = (if k' = k then status g = Pending else pendingIn a k')"
  by (simp add: pendingIn_def setGeneratedImage_def update_conv')

lemma pendingIn_fields:
  "pendingIn (a\<lparr>workers := ws\<rparr>) = pendingIn a"
  "pendingIn (a\<lparr>stylesQueue := q\<rparr>) = pendingIn a"
  "pendingIn (a\<lparr>regenerating := r\<rparr>) = pendingIn a"
  "pendingIn (a\<lparr>started := st\<rparr>) = pendingIn a"
  "pendingIn (a\<lparr>appState := x\<rparr>) = pendingIn a"
  "pendingIn (a\<lparr>awaitingAll := b\<rparr>) = pendingIn a"
  "pendingIn (a\<lparr>signalled := n\<rparr>) = pendingIn a"
  by (simp_all add: pendingIn_def fun_eq_iff)

lemma count_list_remove_nth:
  "i < length r \<Longrightarrow>
   count_list (map f (take i r @ drop (Suc i) r)) x + (if x = f (r ! i) then 1 else 0) =
   count_list (map f r) x"
proof -
  assume i: "i < length r"
  then have "r = take i r @ r ! i # drop (Suc i) r" by (simp add: id_take_nth_drop)
  then have "count_list (map f r) x = count_list (map f (take i r @ r ! i # drop (Suc i) r)) x"
    by simp
  then show ?thesis by (simp del: append_take_drop_id)
qed

lemma map_fst_update_same:
  "i < length r \<Longrightarrow> fst (r ! i) = k \<Longrightarrow> map fst (r[i := (k, t)]) = map fst r"
  by (simp add: map_update list_update_same_conv)

lemma singleWriterI:
  "(\<And>k. count_list (active a) k = (if pendingIn a k then 1 else 0)) \<Longrightarrow> singleWriter a"
  by (simp add: singleWriter_def)

lemma singleWriterD:
  "singleWriter a \<Longrightarrow> count_list (active a) k = (if pendingIn a k then 1 else 0)"
  by (simp add: singleWriter_def)

lemma running_member_count: "w < length ws \<Longrightarrow> ws ! w = InProcessStyle k t \<Longrightarrow> 0 < count_list (running ws) k"
  using running_update_leave[of w ws k t k] by simp

lemma regenerating_member_count:
  "i < length r \<Longrightarrow> r ! i = (k, t) \<Longrightarrow> 0 < count_list (map fst r) k"
  using count_list_remove_nth[of i r fst k] by simp

lemma singleWriter_step_keys:
  assumes "step e a = Some a'" and acc: "set (stylesQueue a) \<subseteq> set STYLE_KEYS"
    and inv: "singleWriter a"
  shows "singleWriter a'"
  using assms(1)
proof (cases rule: step_elim)
  case (LoopReturn w)
  then have "running ((workers a)[w := Returned]) = running (workers a)"
    by (simp add: running_update_same)
  with inv LoopReturn show ?thesis by (simp add: singleWriter_def active_def pendingIn_fields)
next
  case (LoopSkip w rest)
  with acc have "[] \<in> set STYLE_KEYS" by auto
  then show ?thesis using STYLE_KEYS_nonempty by blast
next
  case (LoopThrow w k rest)
  with acc have "k \<in> set STYLE_KEYS" by auto
  with LoopThrow show ?thesis by simp
next
  case (LoopStart w k rest)
  show ?thesis
  proof (rule singleWriterI)
    fix k'
    from singleWriterD[OF inv, of k'] LoopStart
      running_update_enter[of w "workers a" k AwaitGenerate k']
    show "count_list (active a') k' = (if pendingIn a' k' then 1 else 0)"
      by (cases "k' = k") (auto simp add: active_def pendingIn_fields split: if_splits)
  qed
next
  case (SettleFail w k t err)
  show ?thesis
  proof (rule singleWriterI)
    fix k'
    from singleWriterD[OF inv, of k'] SettleFail
      running_update_leave[of w "workers a" k t k']
    show "count_list (active a') k' = (if pendingIn a' k' then 1 else 0)"
      by (cases "k' = k")
        (auto simp add: active_def pendingIn_fields pendingIn_setGeneratedImage setGeneratedImage_fields errorImage_def
          split: if_splits)
  qed
next
  case (SettleGenerated w k u)
  then have "running ((workers a)[w := InProcessStyle k (AwaitWatermark u)]) = running (workers a)"
    by (simp add: running_update_same)
  with inv SettleGenerated show ?thesis by (simp add: singleWriter_def active_def pendingIn_fields)
next
  case (SettleDone w k u v)
  show ?thesis
  proof (rule singleWriterI)
    fix k'
    from singleWriterD[OF inv, of k'] SettleDone
      running_update_leave[of w "workers a" k "AwaitWatermark u" k']
    show "count_list (active a') k' = (if pendingIn a' k' then 1 else 0)"
      by (cases "k' = k")
        (auto simp add: active_def pendingIn_fields pendingIn_setGeneratedImage setGeneratedImage_fields doneImage_def
          split: if_splits)
  qed
next
  case Completion
  with inv show ?thesis by (simp add: singleWriter_def active_def pendingIn_fields)
next
  case (RegenNoImage k)
  with inv show ?thesis by simp
next
  case (RegenPending k)
  with inv show ?thesis by simp
next
  case (RegenThrow k)
  show ?thesis
  proof (rule singleWriterI)
    fix k'
    from singleWriterD[OF inv, of k'] RegenThrow
    show "count_list (active a') k' = (if pendingIn a' k' then 1 else 0)"
      by (cases "k' = k")
        (auto simp add: active_def pendingIn_fields pendingIn_setGeneratedImage setGeneratedImage_fields errorImage_def
          split: if_splits)
  qed
next
  case (RegenStart k)
  show ?thesis
  proof (rule singleWriterI)
    fix k'
    from singleWriterD[OF inv, of k'] RegenStart
    show "count_list (active a') k' = (if pendingIn a' k' then 1 else 0)"
      by (cases "k' = k")
        (auto simp add: active_def pendingIn_fields pendingIn_setGeneratedImage setGeneratedImage_fields pendingImage_def
          split: if_splits)
  qed
next
  case (RegenFail i k t err)
  show ?thesis
  proof (rule singleWriterI)
    fix k'
    from singleWriterD[OF inv, of k'] RegenFail
      count_list_remove_nth[of i "regenerating a" fst k']
    show "count_list (active a') k' = (if pendingIn a' k' then 1 else 0)"
      by (cases "k' = k")
        (auto simp add: active_def pendingIn_fields pendingIn_setGeneratedImage setGeneratedImage_fields errorImage_def
          split: if_splits)
  qed
next
  case (RegenGenerated i k u)
  then have "map fst ((regenerating a)[i := (k, AwaitWatermark u)]) = map fst (regenerating a)"
    by (simp add: map_fst_update_same)
  with inv RegenGenerated show ?thesis by (simp add: singleWriter_def active_def pendingIn_fields)
next
  case (RegenDone i k u v)
  show ?thesis
  proof (rule singleWriterI)
    fix k'
    from singleWriterD[OF inv, of k'] RegenDone
      count_list_remove_nth[of i "regenerating a" fst k']
    show "count_list (active a') k' = (if pendingIn a' k' then 1 else 0)"
      by (cases "k' = k")
        (auto simp add: active_def pendingIn_fields pendingIn_setGeneratedImage setGeneratedImage_fields doneImage_def
          split: if_splits)
  qed
qed

lemma singleWriter_step:
  assumes "step e a = Some a'" and acc: "accounted a" and inv: "singleWriter a"
  shows "singleWriter a'"
proof -
  from acc have "set (stylesQueue a) \<subseteq> set STYLE_KEYS" using queue_STYLE_KEYS[of a] by blast
  with assms(1) show ?thesis using inv by (rule singleWriter_step_keys)
qed

lemma responsibleI:
  "(\<And>k. pendingIn a k \<longrightarrow> 0 < count_list (active a) k) \<Longrightarrow> responsible a"
  by (simp add: responsible_def)

lemma responsibleD:
  "responsible a \<Longrightarrow> pendingIn a k \<longrightarrow> 0 < count_list (active a) k"
  by (simp add: responsible_def)

lemma responsible_step:
  assumes "step e a = Some a'" and acc: "accounted a" and inv: "responsible a"
  shows "responsible a'"
  using assms(1)
proof (cases rule: step_elim)
  case (LoopReturn w)
  then have "running ((workers a)[w := Returned]) = running (workers a)"
    by (simp add: running_update_same)
  with inv LoopReturn show ?thesis by (simp add: responsible_def active_def pendingIn_fields)
next
  case (LoopSkip w rest)
  with acc have "[] \<in> set STYLE_KEYS" using queue_STYLE_KEYS[of a "[]"] by simp
  then show ?thesis using STYLE_KEYS_nonempty by blast
next
  case (LoopThrow w k rest)
  with acc have "k \<in> set STYLE_KEYS" using queue_STYLE_KEYS[of a k] by simp
  with LoopThrow show ?thesis by simp
next
  case (LoopStart w k rest)
  show ?thesis
  proof (rule responsibleI)
    fix k'
    from responsibleD[OF inv, of k'] LoopStart
      running_update_enter[of w "workers a" k AwaitGenerate k']
    show "pendingIn a' k' \<longrightarrow> 0 < count_list (active a') k'"
      by (cases "k' = k") (auto simp add: active_def pendingIn_fields split: if_splits)
  qed
next
  case (SettleFail w k t err)
  show ?thesis
  proof (rule responsibleI)
    fix k'
    from responsibleD[OF inv, of k'] SettleFail
      running_update_leave[of w "workers a" k t k']
    show "pendingIn a' k' \<longrightarrow> 0 < count_list (active a') k'"
      by (cases "k' = k")
        (auto simp add: active_def pendingIn_fields pendingIn_setGeneratedImage setGeneratedImage_fields errorImage_def
          split: if_splits)
  qed
next
  case (SettleGenerated w k u)
  then have "running ((workers a)[w := InProcessStyle k (AwaitWatermark u)]) = running (workers a)"
    by (simp add: running_update_same)
  with inv SettleGenerated show ?thesis by (simp add: responsible_def active_def pendingIn_fields)
next
  case (SettleDone w k u v)
  show ?thesis
  proof (rule responsibleI)
    fix k'
    from responsibleD[OF inv, of k'] SettleDone
      running_update_leave[of w "workers a" k "AwaitWatermark u" k']
    show "pendingIn a' k' \<longrightarrow> 0 < count_list (active a') k'"
      by (cases "k' = k")
        (auto simp add: active_def pendingIn_fields pendingIn_setGeneratedImage setGeneratedImage_fields doneImage_def
          split: if_splits)
  qed
next
  case Completion
  with inv show ?thesis by (simp add: responsible_def active_def pendingIn_fields)
next
  case (RegenNoImage k)
  with inv show ?thesis by simp
next
  case (RegenPending k)
  with inv show ?thesis by simp
next
  case (RegenThrow k)
  show ?thesis
  proof (rule responsibleI)
    fix k'
    from responsibleD[OF inv, of k'] RegenThrow
    show "pendingIn a' k' \<longrightarrow> 0 < count_list (active a') k'"
      by (cases "k' = k")
        (auto simp add: active_def pendingIn_fields pendingIn_setGeneratedImage setGeneratedImage_fields errorImage_def
          split: if_splits)
  qed
next
  case (RegenStart k)
  show ?thesis
  proof (rule responsibleI)
    fix k'
    from responsibleD[OF inv, of k'] RegenStart
    show "pendingIn a' k' \<longrightarrow> 0 < count_list (active a') k'"
      by (cases "k' = k")
        (auto simp add: active_def pendingIn_fields pendingIn_setGeneratedImage setGeneratedImage_fields pendingImage_def
          split: if_splits)
  qed
next
  case (RegenFail i k t err)
  show ?thesis
  proof (rule responsibleI)
    fix k'
    from responsibleD[OF inv, of k'] RegenFail
      count_list_remove_nth[of i "regenerating a" fst k']
    show "pendingIn a' k' \<longrightarrow> 0 < count_list (active a') k'"
      by (cases "k' = k")
        (auto simp add: active_def pendingIn_fields pendingIn_setGeneratedImage setGeneratedImage_fields errorImage_def
          split: if_splits)
  qed
next
  case (RegenGenerated i k u)
  then have "map fst ((regenerating a)[i := (k, AwaitWatermark u)]) = map fst (regenerating a)"
    by (simp add: map_fst_update_same)
  with inv RegenGenerated show ?thesis by (simp add: responsible_def active_def pendingIn_fields)
next
  case (RegenDone i k u v)
  show ?thesis
  proof (rule responsibleI)
    fix k'
    from responsibleD[OF inv, of k'] RegenDone
      count_list_remove_nth[of i "regenerating a" fst k']
    show "pendingIn a' k' \<longrightarrow> 0 < count_list (active a') k'"
      by (cases "k' = k")
        (auto simp add: active_def pendingIn_fields pendingIn_setGeneratedImage setGeneratedImage_fields doneImage_def
          split: if_splits)
  qed
qed

subsection \<open>The state at the start of a dispatch\<close>

lemma map_of_foldl_update:
  "map_of (foldl (\<lambda>m k. AList.update k v m) m0 ks) k =
     (if k \<in> set ks then Some v else map_of m0 k)"
  by (induction ks arbitrary: m0) (auto simp add: update_conv')

lemma map_of_initialImages:
  "map_of initialImages k = (if k \<in> set STYLE_KEYS then Some pendingImage else None)"
  by (simp add: initialImages_def map_of_foldl_update)

lemma pendingIn_start:
  "truthy (croppedImageForDisplay a) \<Longrightarrow> pendingIn (handleGenerateClick a) k = (k \<in> set STYLE_KEYS)"
  by (simp add: pendingIn_def handleGenerateClick_def map_of_initialImages pendingImage_def)

lemma running_replicate_AtLoop: "running (replicate n AtLoop) = []"
  by (induction n) auto

lemma active_start:
  "truthy (croppedImageForDisplay a) \<Longrightarrow>
   active (handleGenerateClick a) = STYLE_KEYS @ map fst (regenerating a)"
  by (simp add: active_def handleGenerateClick_def running_replicate_AtLoop)

lemma count_list_distinct_if:
  "distinct xs \<Longrightarrow> count_list xs x = (if x \<in> set xs then 1 else 0)"
  by (induction xs) auto

lemma responsible_start:
  "truthy (croppedImageForDisplay a) \<Longrightarrow> responsible (handleGenerateClick a)"
  by (simp add: responsible_def pendingIn_start active_start count_list_distinct_if distinct_STYLE_KEYS)

lemma singleWriter_start:
  "truthy (croppedImageForDisplay a) \<Longrightarrow> regenerating a = [] \<Longrightarrow>
   singleWriter (handleGenerateClick a)"
  by (simp add: singleWriter_def pendingIn_start active_start count_list_distinct_if distinct_STYLE_KEYS)

lemma dispatch_responsible:
  assumes "truthy (croppedImageForDisplay a)" and "exec es (handleGenerateClick a) = Some s"
  shows "responsible s"
proof -
  have "accounted (handleGenerateClick a) \<and> responsible (handleGenerateClick a)"
    using assms(1) by (simp add: accounted_start responsible_start)
  with assms(2) have "accounted s \<and> responsible s"
    by (rule exec_preserves) (auto intro: accounted_step responsible_step)
  then show ?thesis by simp
qed

lemma dispatch_singleWriter:
  assumes "truthy (croppedImageForDisplay a)" and "regenerating a = []"
    and "exec es (handleGenerateClick a) = Some s"
  shows "singleWriter s"
proof -
  have "accounted (handleGenerateClick a) \<and> singleWriter (handleGenerateClick a)"
    using assms(1,2) by (simp add: accounted_start singleWriter_start)
  with assms(3) have "accounted s \<and> singleWriter s"
    by (rule exec_preserves) (auto intro: accounted_step singleWriter_step)
  then show ?thesis by simp
qed

text \<open>Every style key keeps an entry.\<close>

lemma present_step:
  assumes "step e a = Some a'" and "map_of (generatedImages a) k \<noteq> None"
  shows "map_of (generatedImages a') k \<noteq> None"
  using assms by (cases rule: step_elim) (auto simp add: setGeneratedImage_def update_conv')

lemma dispatch_present:
  assumes "truthy (croppedImageForDisplay a)" and "exec es (handleGenerateClick a) = Some s"
    and "k \<in> set STYLE_KEYS"
  shows "map_of (generatedImages s) k \<noteq> None"
proof -
  have "map_of (generatedImages (handleGenerateClick a)) k \<noteq> None"
    using assms(1,3) by (simp add: handleGenerateClick_def map_of_initialImages)
  with assms(2) show ?thesis by (rule exec_preserves) (rule present_step)
qed

text \<open>Every update by the pool stores a terminal status.\<close>

lemma pool_writes_terminal_step:
  assumes "step e a = Some a'" and "\<forall>u \<in> set (writes a). isPool (who u) \<longrightarrow> terminal (after u)"
  shows "\<forall>u \<in> set (writes a'). isPool (who u) \<longrightarrow> terminal (after u)"
  using assms
  by (cases rule: step_elim)
    (auto simp add: setGeneratedImage_def terminal_def errorImage_def doneImage_def)

lemma dispatch_pool_writes_terminal:
  assumes "truthy (croppedImageForDisplay a)" and "exec es (handleGenerateClick a) = Some s"
  shows "\<forall>u \<in> set (writes s). isPool (who u) \<longrightarrow> terminal (after u)"
proof -
  have "\<forall>u \<in> set (writes (handleGenerateClick a)). isPool (who u) \<longrightarrow> terminal (after u)"
    using assms(1) by (simp add: handleGenerateClick_def)
  with assms(2) show ?thesis by (rule exec_preserves) (rule pool_writes_terminal_step)
qed

lemma poolWritten_member:
  "k \<in> set (poolWritten s) \<Longrightarrow> \<exists>u \<in> set (writes s). isPool (who u) \<and> key u = k"
  by (auto simp add: poolWritten_def)

subsection \<open>The last steps of the pool\<close>

lemma nth_foldl_update:
  "j < length ws \<Longrightarrow>
   foldl (\<lambda>ws i. ws[i := x]) ws js ! j = (if j \<in> set js then x else ws ! j)"
  by (induction js arbitrary: ws) (auto simp add: nth_list_update)

lemma length_foldl_update: "length (foldl (\<lambda>ws i. ws[i := x]) ws js) = length ws"
  by (induction js arbitrary: ws) auto

lemma exec_Loops_empty_queue:
  "stylesQueue a = [] \<Longrightarrow> distinct js \<Longrightarrow>
   \<forall>i \<in> set js. i < length (workers a) \<and> workers a ! i = AtLoop \<Longrightarrow>
   exec (map Loop js) a = Some (a\<lparr>workers := foldl (\<lambda>ws i. ws[i := Returned]) (workers a) js\<rparr>)"
proof (induction js arbitrary: a)
  case Nil
  then show ?case by simp
next
  case (Cons i js)
  let ?a1 = "a\<lparr>workers := (workers a)[i := Returned]\<rparr>"
  from Cons.prems have st: "step (Loop i) a = Some ?a1" by (simp add: workerLoop_def)
  have "exec (map Loop js) ?a1 =
        Some (?a1\<lparr>workers := foldl (\<lambda>ws i. ws[i := Returned]) (workers ?a1) js\<rparr>)"
    using Cons.prems by (intro Cons.IH) (auto simp add: nth_list_update)
  with st show ?case by simp
qed

lemma not_running_cases:
  "running ws = [] \<Longrightarrow> x \<in> set ws \<Longrightarrow> x = AtLoop \<or> x = Returned"
  by (cases x) (auto simp add: running_nil)

lemma drain_completes:
  assumes q: "stylesQueue a = []" and r: "running (workers a) = []" and w: "awaitingAll a"
  shows "\<exists>a'. exec (drain a) a = Some a' \<and> signalled a' = Suc (signalled a) \<and>
           appState a' = ResultsShown \<and> generatedImages a' = generatedImages a"
proof -
  let ?js = "filter (\<lambda>w. workers a ! w = AtLoop) [0..<length (workers a)]"
  let ?ws = "foldl (\<lambda>ws i. ws[i := Returned]) (workers a) ?js"
  let ?a1 = "a\<lparr>workers := ?ws\<rparr>"
  have e1: "exec (map Loop ?js) a = Some ?a1"
    using q by (intro exec_Loops_empty_queue) auto
  have "x = Returned" if "x \<in> set ?ws" for x
  proof -
    from that obtain j where j: "j < length ?ws" "x = ?ws ! j" by (auto simp add: in_set_conv_nth)
    then have jl: "j < length (workers a)" by (simp add: length_foldl_update)
    then have x: "x = (if j \<in> set ?js then Returned else workers a ! j)"
      using j(2) by (simp only: nth_foldl_update)
    show ?thesis
    proof (cases "workers a ! j = AtLoop")
      case True
      with jl have "j \<in> set ?js" by simp
      with x show ?thesis by simp
    next
      case False
      with jl not_running_cases[OF r, of "workers a ! j"] have "workers a ! j = Returned" by auto
      with x show ?thesis by simp
    qed
  qed
  then have "step AllSettled ?a1 =
      Some (?a1\<lparr>appState := ResultsShown, awaitingAll := False, signalled := Suc (signalled ?a1)\<rparr>)"
    using w by simp
  with e1 show ?thesis by (simp add: drain_def exec_append)
qed

lemma count_list_pos_iff: "(0 < count_list xs x) = (x \<in> set xs)"
  by (induction xs) auto

lemma count_list_nil:
  assumes "\<And>k. count_list xs k = 0"
  shows "xs = []"
proof -
  have "x \<notin> set xs" for x using assms[of x] count_list_pos_iff[of xs x] by simp
  then show ?thesis by (cases xs) auto
qed

lemma all_written_idle:
  assumes acc: "accounted s" and all: "\<forall>k \<in> set STYLE_KEYS. k \<in> set (poolWritten s)"
  shows "stylesQueue s = []" and "running (workers s) = []"
proof -
  from acc have q: "poolStarted s @ stylesQueue s = STYLE_KEYS"
    and cnt: "\<And>k. count_list (poolWritten s) k + count_list (running (workers s)) k =
           count_list (poolStarted s) k"
    by (simp_all add: accounted_def)
  from q have d: "distinct (poolStarted s @ stylesQueue s)" using distinct_STYLE_KEYS by simp
  then have ds: "distinct (poolStarted s)" by simp
  have started: "k \<in> set (poolStarted s)" if "k \<in> set STYLE_KEYS" for k
  proof -
    from all that have "0 < count_list (poolWritten s) k" by (simp add: count_list_pos_iff)
    with cnt[of k] have "0 < count_list (poolStarted s) k" by simp
    then show ?thesis by (simp add: count_list_pos_iff)
  qed
  show "stylesQueue s = []"
  proof (rule ccontr)
    assume "stylesQueue s \<noteq> []"
    then obtain k where k: "k \<in> set (stylesQueue s)" by (cases "stylesQueue s") auto
    with q have "k \<in> set STYLE_KEYS" by (metis Un_iff set_append)
    with started have "k \<in> set (poolStarted s)" by simp
    with k d show False by auto
  qed
  show "running (workers s) = []"
  proof (rule count_list_nil)
    fix k
    show "count_list (running (workers s)) k = 0"
    proof (cases "k \<in> set STYLE_KEYS")
      case True
      with all have "0 < count_list (poolWritten s) k" by (simp add: count_list_pos_iff)
      moreover have "count_list (poolStarted s) k \<le> 1"
        using ds by (simp add: count_list_distinct_if)
      ultimately show ?thesis using cnt[of k] by simp
    next
      case False
      with q have "k \<notin> set (poolStarted s)" by (metis Un_iff set_append)
      then have "count_list (poolStarted s) k = 0" using count_list_pos_iff[of "poolStarted s" k] by simp
      with cnt[of k] show ?thesis by simp
    qed
  qed
qed

lemma appState_step:
  assumes "step e a = Some a'"
    and "appState a = (if awaitingAll a then Generating else ResultsShown)"
  shows "appState a' = (if awaitingAll a' then Generating else ResultsShown)"
  using assms by (cases rule: step_elim) (simp_all add: setGeneratedImage_def)

lemma dispatch_appState:
  assumes "truthy (croppedImageForDisplay a)" and "exec es (handleGenerateClick a) = Some s"
  shows "appState s = (if awaitingAll s then Generating else ResultsShown)"
proof -
  have "appState (handleGenerateClick a) =
      (if awaitingAll (handleGenerateClick a) then Generating else ResultsShown)"
    using assms(1) by (simp add: handleGenerateClick_def)
  with assms(2) show ?thesis by (rule exec_preserves) (rule appState_step)
qed

lemma status_cases: "status g = Pending \<or> terminal g"
  by (cases "status g") (simp_all add: terminal_def)

subsection \<open>Termination of the pool\<close>

lemma sum_list_map_update:
  "w < length ws \<Longrightarrow>
   sum_list (map f (ws[w := x])) + f (ws ! w) = sum_list (map f ws) + (f x :: nat)"
proof (induction ws arbitrary: w)
  case Nil then show ?case by simp
next
  case (Cons y ys)
  then show ?case by (cases w) auto
qed

lemma remaining_step:
  assumes "step e a = Some a'"
  shows "remaining a' + (if isPoolEvent e then 1 else 0) \<le> remaining a"
  using assms
proof (cases rule: step_elim)
  case (LoopReturn w)
  with sum_list_map_update[of w "workers a" workerWeight Returned]
  show ?thesis by (simp add: remaining_def)
next
  case (LoopSkip w rest)
  then show ?thesis by (simp add: remaining_def)
next
  case (LoopThrow w k rest)
  then show ?thesis by (simp add: remaining_def setGeneratedImage_def)
next
  case (LoopStart w k rest)
  with sum_list_map_update[of w "workers a" workerWeight "InProcessStyle k AwaitGenerate"]
  show ?thesis by (simp add: remaining_def)
next
  case (SettleFail w k t err)
  with sum_list_map_update[of w "workers a" workerWeight AtLoop]
  show ?thesis by (cases t) (simp_all add: remaining_def setGeneratedImage_def)
next
  case (SettleGenerated w k u)
  with sum_list_map_update[of w "workers a" workerWeight "InProcessStyle k (AwaitWatermark u)"]
  show ?thesis by (simp add: remaining_def)
next
  case (SettleDone w k u v)
  with sum_list_map_update[of w "workers a" workerWeight AtLoop]
  show ?thesis by (simp add: remaining_def setGeneratedImage_def)
qed (simp_all add: remaining_def setGeneratedImage_def)

lemma remaining_exec:
  "exec es a = Some a' \<Longrightarrow> remaining a' + length (filter isPoolEvent es) \<le> remaining a"
proof (induction es arbitrary: a)
  case Nil then show ?case by simp
next
  case (Cons e es)
  then obtain a1 where a1: "step e a = Some a1" "exec es a1 = Some a'"
    by (auto split: option.splits)
  from Cons.IH[OF a1(2)] remaining_step[OF a1(1)] show ?case by auto
qed

text \<open>The pool is never stuck while \<open>handleGenerateClick\<close> waits for it.\<close>

lemma pool_progress:
  assumes "w < length (workers a)"
  shows "workers a ! w = AtLoop \<Longrightarrow> step (Loop w) a \<noteq> None"
    and "workers a ! w = InProcessStyle k t \<Longrightarrow> step (Settle w r) a \<noteq> None"
    and "awaitingAll a \<Longrightarrow> \<forall>x \<in> set (workers a). x = Returned \<Longrightarrow> step AllSettled a \<noteq> None"
  using assms by (auto split: prod.splits option.splits)

lemma nextEvent_enabled:
  assumes "awaitingAll a"
  shows "step (nextEvent outcome a) a \<noteq> None \<and> isPoolEvent (nextEvent outcome a)"
proof (cases "find (\<lambda>w. workers a ! w \<noteq> Returned) [0..<length (workers a)]")
  case None
  then have "\<forall>w < length (workers a). workers a ! w = Returned"
    by (auto simp add: find_None_iff)
  then have "\<forall>x \<in> set (workers a). x = Returned" by (auto simp add: in_set_conv_nth)
  with assms None show ?thesis by (simp add: nextEvent_def)
next
  case (Some w)
  then have w: "w < length (workers a)" "workers a ! w \<noteq> Returned"
    by (auto simp add: find_Some_iff)
  then show ?thesis
    using Some pool_progress(1,2)[OF w(1)]
    by (cases "workers a ! w") (auto simp add: nextEvent_def simp del: step.simps)
qed

lemma schedule_completes:
  "remaining a \<le> n \<Longrightarrow>
   \<exists>a'. exec (schedule outcome n a) a = Some a' \<and> \<not> awaitingAll a'"
proof (induction n arbitrary: a)
  case 0
  then have "\<not> awaitingAll a" by (simp add: remaining_def split: if_splits)
  then show ?case by simp
next
  case (Suc n)
  show ?case
  proof (cases "awaitingAll a")
    case False
    then show ?thesis by simp
  next
    case True
    from nextEvent_enabled[OF True, of outcome] obtain a1
      where a1: "step (nextEvent outcome a) a = Some a1" and p: "isPoolEvent (nextEvent outcome a)"
      by auto
    from remaining_step[OF a1] p Suc.prems have "remaining a1 \<le> n" by simp
    from Suc.IH[OF this] obtain a' where "exec (schedule outcome n a1) a1 = Some a'" "\<not> awaitingAll a'"
      by blast
    with True a1 show ?thesis by simp
  qed
qed

lemma remaining_start:
  "truthy (croppedImageForDisplay a) \<Longrightarrow> remaining (handleGenerateClick a) = 31"
  by (simp add: remaining_def handleGenerateClick_def length_STYLE_KEYS concurrencyLimit_def
      numeral_3_eq_3)

text \<open>
  No run of a dispatch has more than 31 steps of the pool: three for each of the nine
  keys, one return for each of the three workers, and the completion.
\<close>

lemma dispatch_bounded:
  assumes "truthy (croppedImageForDisplay a)" and "exec es (handleGenerateClick a) = Some s"
  shows "length (filter isPoolEvent es) \<le> 31"
  using remaining_exec[OF assms(2)] remaining_start[OF assms(1)] by simp

text \<open>
  From every state a dispatch can reach, whatever the outcomes of the calls still to
  settle, the pool runs to completion within \<open>remaining\<close> steps, and then every style key
  has had exactly one call and one update that stored a terminal status.
\<close>

lemma dispatch_completes:
  assumes "truthy (croppedImageForDisplay a)" and "exec es (handleGenerateClick a) = Some s"
  shows "\<exists>s'. exec (schedule outcome (remaining s) s) s = Some s' \<and> signalled s' = 1 \<and>
           (\<forall>x \<in> set (workers s'). x = Returned) \<and> stylesQueue s' = [] \<and>
           poolStarted s' = STYLE_KEYS \<and>
           (\<forall>k \<in> set STYLE_KEYS. count_list (poolWritten s') k = 1 \<and>
              (\<exists>u \<in> set (writes s'). isPool (who u) \<and> key u = k \<and> terminal (after u)))"
proof -
  from schedule_completes[of s "remaining s" outcome] obtain s'
    where s': "exec (schedule outcome (remaining s) s) s = Some s'" and na: "\<not> awaitingAll s'"
    by auto
  from assms(2) s' have ex: "exec (es @ schedule outcome (remaining s) s) (handleGenerateClick a) = Some s'"
    by (simp add: exec_append)
  note inv = dispatch_invariants[OF assms(1) ex]
  from inv(3) na have sig: "signalled s' = 1" by simp
  from inv(4) na have r: "\<forall>x \<in> set (workers s'). x = Returned" by simp
  from inv(2) have ne: "workers s' \<noteq> []" by (auto simp add: concurrencyLimit_def)
  note fin = finished_pool[OF inv(1) ne r]
  have "count_list (poolWritten s') k = 1 \<and>
        (\<exists>u \<in> set (writes s'). isPool (who u) \<and> key u = k \<and> terminal (after u))"
    if k: "k \<in> set STYLE_KEYS" for k
  proof -
    from fin(3)[of k] k distinct_STYLE_KEYS have one: "count_list (poolWritten s') k = 1"
      by (simp add: count_list_distinct_if)
    then have "k \<in> set (poolWritten s')" using count_list_pos_iff[of "poolWritten s'" k] by simp
    then obtain u where u: "u \<in> set (writes s')" "isPool (who u)" "key u = k"
      using poolWritten_member by blast
    with dispatch_pool_writes_terminal[OF assms(1) ex] have "terminal (after u)" by blast
    with u one show ?thesis by blast
  qed
  with s' sig r fin(1,2) show ?thesis by blast
qed

subsection \<open>Well-formed entries\<close>

lemma set_update_cases:
  "p \<in> set (AList.update k v al) \<Longrightarrow> p = (k, v) \<or> p \<in> set al"
  by (induction al) (auto split: if_splits)

lemma wellFormed_entries:
  "wellFormed pendingImage" "wellFormed (doneImage u)" "wellFormed (errorImage m)"
  by (simp_all add: wellFormed_def pendingImage_def doneImage_def errorImage_def)

lemma wellFormed_setGeneratedImage:
  assumes "wellFormed g" and "\<forall>p \<in> set (generatedImages a). wellFormed (snd p)"
    and "\<forall>u \<in> set (writes a). wellFormed (after u)"
  shows "(\<forall>p \<in> set (generatedImages (setGeneratedImage actor k g a)). wellFormed (snd p)) \<and>
         (\<forall>u \<in> set (writes (setGeneratedImage actor k g a)). wellFormed (after u))"
  using assms by (auto simp add: setGeneratedImage_def dest!: set_update_cases)

lemma wellFormedState_set:
  "wellFormed g \<Longrightarrow> wellFormedState a \<Longrightarrow> wellFormedState (setGeneratedImage actor k g a)"
  using wellFormed_setGeneratedImage[of g a actor k] by (simp add: wellFormedState_def)

lemma wellFormedState_fields:
  "wellFormedState (a\<lparr>workers := ws\<rparr>) = wellFormedState a"
  "wellFormedState (a\<lparr>stylesQueue := q\<rparr>) = wellFormedState a"
  "wellFormedState (a\<lparr>regenerating := r\<rparr>) = wellFormedState a"
  "wellFormedState (a\<lparr>started := st\<rparr>) = wellFormedState a"
  "wellFormedState (a\<lparr>appState := x\<rparr>) = wellFormedState a"
  "wellFormedState (a\<lparr>awaitingAll := b\<rparr>) = wellFormedState a"
  "wellFormedState (a\<lparr>signalled := n\<rparr>) = wellFormedState a"
  by (simp_all add: wellFormedState_def)

lemma wellFormedState_step:
  assumes "step e a = Some a'" and "wellFormedState a"
  shows "wellFormedState a'"
  using assms
  by (cases rule: step_elim)
    (simp_all add: wellFormedState_fields wellFormedState_set wellFormed_entries)

lemma set_foldl_update:
  "p \<in> set (foldl (\<lambda>m k. AList.update k v m) m0 ks) \<Longrightarrow> snd p = v \<or> p \<in> set m0"
proof (induction ks arbitrary: m0)
  case Nil
  then show ?case by simp
next
  case (Cons k ks)
  from Cons.prems have "p \<in> set (foldl (\<lambda>m k. AList.update k v m) (AList.update k v m0) ks)"
    by simp
  from Cons.IH[OF this] show ?case using set_update_cases[of p k v m0] by auto
qed

lemma wellFormedState_start:
  assumes "wellFormedState a"
  shows "wellFormedState (handleGenerateClick a)"
proof (cases "truthy (croppedImageForDisplay a)")
  case True
  have "wellFormed (snd p)" if "p \<in> set initialImages" for p
    using set_foldl_update[of p pendingImage "[]" STYLE_KEYS] that
    by (auto simp add: initialImages_def wellFormed_entries)
  with True show ?thesis by (simp add: wellFormedState_def handleGenerateClick_def)
next
  case False
  with assms show ?thesis by (simp add: handleGenerateClick_def)
qed

subsection \<open>Allowed transitions\<close>

lemma allowed_settle:
  "pendingIn a k \<Longrightarrow> terminal g \<Longrightarrow>
   allowed \<lparr>who = x, key = k, before = map_of (generatedImages a) k, after = g\<rparr>"
  by (auto simp add: allowed_def pendingIn_def)

lemma allowed_reset:
  "\<not> pendingIn a k \<Longrightarrow> map_of (generatedImages a) k \<noteq> None \<Longrightarrow>
   allowed \<lparr>who = Regenerate, key = k, before = map_of (generatedImages a) k,
            after = pendingImage\<rparr>"
proof -
  assume np: "\<not> pendingIn a k" and "map_of (generatedImages a) k \<noteq> None"
  then obtain g where g: "map_of (generatedImages a) k = Some g" by blast
  with np have "status g \<noteq> Pending" by (simp add: pendingIn_def)
  with status_cases[of g] have "terminal g" by simp
  with g show ?thesis by (simp add: allowed_def pendingImage_def)
qed

lemma terminal_entries: "terminal (doneImage u)" "terminal (errorImage m)"
  by (simp_all add: terminal_def doneImage_def errorImage_def)

lemma running_pending:
  assumes "singleWriter a" and "w < length (workers a)" and "workers a ! w = InProcessStyle k t"
  shows "pendingIn a k"
proof -
  from running_member_count[OF assms(2,3)] have "0 < count_list (active a) k"
    by (simp add: active_def)
  with singleWriterD[OF assms(1), of k] show ?thesis by (simp split: if_splits)
qed

lemma regenerating_pending:
  assumes "singleWriter a" and "i < length (regenerating a)" and "regenerating a ! i = (k, t)"
  shows "pendingIn a k"
proof -
  from regenerating_member_count[OF assms(2,3)] have "0 < count_list (active a) k"
    by (simp add: active_def)
  with singleWriterD[OF assms(1), of k] show ?thesis by (simp split: if_splits)
qed

lemma transitionsAllowed_step_keys:
  assumes "step e a = Some a'" and acc: "set (stylesQueue a) \<subseteq> set STYLE_KEYS"
    and sw: "singleWriter a"
    and pres: "\<And>k. e = RegenerateClick k \<Longrightarrow> k \<in> set STYLE_KEYS \<Longrightarrow>
                 map_of (generatedImages a) k \<noteq> None"
    and inv: "transitionsAllowed a"
  shows "transitionsAllowed a'"
  using assms(1)
proof (cases rule: step_elim)
  case (LoopReturn w)
  with inv show ?thesis by (simp add: transitionsAllowed_def)
next
  case (LoopSkip w rest)
  with inv show ?thesis by (simp add: transitionsAllowed_def)
next
  case (LoopThrow w k rest)
  with acc have "k \<in> set STYLE_KEYS" by auto
  with LoopThrow show ?thesis by simp
next
  case (LoopStart w k rest)
  with inv show ?thesis by (simp add: transitionsAllowed_def)
next
  case (SettleFail w k t err)
  from running_pending[OF sw SettleFail(2,3)] have "pendingIn a k" .
  from allowed_settle[OF this terminal_entries(2)] inv SettleFail show ?thesis
    by (simp add: transitionsAllowed_def setGeneratedImage_def)
next
  case (SettleGenerated w k u)
  with inv show ?thesis by (simp add: transitionsAllowed_def)
next
  case (SettleDone w k u v)
  from running_pending[OF sw SettleDone(2,3)] have "pendingIn a k" .
  from allowed_settle[OF this terminal_entries(1)] inv SettleDone show ?thesis
    by (simp add: transitionsAllowed_def setGeneratedImage_def)
next
  case Completion
  with inv show ?thesis by (simp add: transitionsAllowed_def)
next
  case (RegenNoImage k)
  with inv show ?thesis by simp
next
  case (RegenPending k)
  with inv show ?thesis by simp
next
  case (RegenThrow k)
  with inv show ?thesis by (auto simp add: transitionsAllowed_def setGeneratedImage_def)
next
  case (RegenStart k)
  with pres have "map_of (generatedImages a) k \<noteq> None" by simp
  from allowed_reset[OF RegenStart(3) this] inv RegenStart show ?thesis
    by (simp add: transitionsAllowed_def setGeneratedImage_def)
next
  case (RegenFail i k t err)
  from regenerating_pending[OF sw RegenFail(2,3)] have "pendingIn a k" .
  from allowed_settle[OF this terminal_entries(2)] inv RegenFail show ?thesis
    by (simp add: transitionsAllowed_def setGeneratedImage_def)
next
  case (RegenGenerated i k u)
  with inv show ?thesis by (simp add: transitionsAllowed_def)
next
  case (RegenDone i k u v)
  from regenerating_pending[OF sw RegenDone(2,3)] have "pendingIn a k" .
  from allowed_settle[OF this terminal_entries(1)] inv RegenDone show ?thesis
    by (simp add: transitionsAllowed_def setGeneratedImage_def)
qed

lemma transitionsAllowed_step:
  assumes "step e a = Some a'" and acc: "accounted a" and sw: "singleWriter a"
    and pres: "\<forall>k \<in> set STYLE_KEYS. map_of (generatedImages a) k \<noteq> None"
    and inv: "transitionsAllowed a"
  shows "transitionsAllowed a'"
proof -
  from acc have "set (stylesQueue a) \<subseteq> set STYLE_KEYS" using queue_STYLE_KEYS[of a] by blast
  from assms(1) this sw _ inv show ?thesis
    by (rule transitionsAllowed_step_keys) (simp add: pres)
qed

lemma croppedImage_step:
  assumes "step e a = Some a'"
  shows "croppedImageForDisplay a' = croppedImageForDisplay a"
  using assms by (cases rule: step_elim) (simp_all add: setGeneratedImage_def)

lemma dispatch_croppedImage:
  assumes "truthy (croppedImageForDisplay a)" and "exec es (handleGenerateClick a) = Some s"
  shows "truthy (croppedImageForDisplay s)"
proof -
  have "truthy (croppedImageForDisplay (handleGenerateClick a))"
    using assms(1) by (simp add: handleGenerateClick_def)
  with assms(2) show ?thesis by (rule exec_preserves) (simp add: croppedImage_step)
qed

lemma dispatch_transitionsAllowed:
  assumes "truthy (croppedImageForDisplay a)" and "regenerating a = []"
    and "exec es (handleGenerateClick a) = Some s"
  shows "transitionsAllowed s"
proof -
  let ?P = "\<lambda>x. accounted x \<and> singleWriter x \<and>
      (\<forall>k \<in> set STYLE_KEYS. map_of (generatedImages x) k \<noteq> None) \<and> transitionsAllowed x"
  have "?P (handleGenerateClick a)"
    using assms(1,2)
    by (simp add: accounted_start singleWriter_start)
      (simp add: handleGenerateClick_def map_of_initialImages transitionsAllowed_def)
  with assms(3) have "?P s"
  proof (rule exec_preserves)
    fix e x x' assume "?P x" and "step e x = Some x'"
    then show "?P x'"
      using accounted_step[of e x x'] singleWriter_step[of e x x'] present_step[of e x x']
        transitionsAllowed_step[of e x x'] by simp
  qed
  then show ?thesis by simp
qed

lemma handleRegenerateStyle_terminal:
  assumes "truthy (croppedImageForDisplay s)" and "k \<in> set STYLE_KEYS"
    and "map_of (generatedImages s) k = Some g" and "terminal g"
  shows "map_of (generatedImages (handleRegenerateStyle k s)) k = Some pendingImage \<and>
         regenerating (handleRegenerateStyle k s) = regenerating s @ [(k, AwaitGenerate)] \<and>
         started (handleRegenerateStyle k s) = started s @ [(Regenerate, k)]"
proof -
  from assms(2) obtain st where "map_of STYLES k = Some st" using STYLES_lookup[of k] by auto
  moreover from assms(3,4) have "map_option status (map_of (generatedImages s) k) \<noteq> Some Pending"
    by (auto simp add: terminal_def)
  ultimately show ?thesis
    using assms(1)
    by (simp add: handleRegenerateStyle_def Let_def setGeneratedImage_def update_conv')
qed

lemma regenerate_settles:
  assumes "i < length (regenerating s)" and "regenerating s ! i = (k, t)"
  shows "\<exists>s'. step (RegenerateSettle i (Inl err)) s = Some s' \<and>
              map_of (generatedImages s') k = Some (errorImage (errorMessage err))"
    and "t = AwaitWatermark u \<Longrightarrow>
         \<exists>s'. step (RegenerateSettle i (Inr v)) s = Some s' \<and>
              map_of (generatedImages s') k = Some (doneImage v)"
    and "t = AwaitGenerate \<Longrightarrow>
         \<exists>s'. step (RegenerateSettle i (Inr u)) s = Some s' \<and>
              regenerating s' ! i = (k, AwaitWatermark u) \<and>
              generatedImages s' = generatedImages s"
  using assms by (simp_all add: setGeneratedImage_def update_conv')

lemma exec_snoc:
  "exec es a = Some s \<Longrightarrow> step e s = Some s' \<Longrightarrow> exec (es @ [e]) a = Some s'"
  by (simp add: exec_append)

subsection \<open>The data of the album\<close>

lemma doneEntries_member:
  "(k, u) \<in> set (doneEntries m) \<Longrightarrow>
   \<exists>g. (k, g) \<in> set m \<and> status g = Done \<and> url g = Some u \<and> u \<noteq> []"
  by (induction m rule: doneEntries.induct) (auto split: if_splits option.splits)

lemma doneEntries_keys: "fst ` set (doneEntries m) \<subseteq> fst ` set m"
proof
  fix k assume "k \<in> fst ` set (doneEntries m)"
  then obtain u where "(k, u) \<in> set (doneEntries m)" by auto
  from doneEntries_member[OF this] show "k \<in> fst ` set m" by force
qed

lemma collectImageData_keys:
  "collectImageData es acc = Inr r \<Longrightarrow>
   fst ` set es \<subseteq> set STYLE_KEYS \<and>
   fst ` set r = fst ` set acc \<union> (\<lambda>k. name (the (map_of STYLES k))) ` fst ` set es \<and>
   (distinct (map fst acc) \<longrightarrow> distinct (map fst r))"
proof (induction es acc rule: collectImageData.induct)
  case (1 acc)
  then show ?case by simp
next
  case (2 styleKey u rest acc)
  from "2.prems" obtain st where st: "map_of STYLES styleKey = Some st"
    by (auto split: option.splits)
  with "2.prems" have r: "collectImageData rest (AList.update (name st) u acc) = Inr r" by simp
  from st have k: "styleKey \<in> set STYLE_KEYS" using STYLES_lookup[of styleKey] by auto
  from "2.IH"[OF st r] k st show ?case
    by (auto simp add: dom_update distinct_update)
qed

lemma collectImageData_total:
  "fst ` set es \<subseteq> set STYLE_KEYS \<Longrightarrow> \<exists>r. collectImageData es acc = Inr r"
proof (induction es acc rule: collectImageData.induct)
  case (1 acc)
  then show ?case by simp
next
  case (2 styleKey u rest acc)
  then have "styleKey \<in> set STYLE_KEYS" by simp
  then obtain st where st: "map_of STYLES styleKey = Some st"
    using STYLES_lookup[of styleKey] by auto
  with 2 show ?case by simp
qed

lemma imageData_complete:
  assumes "collectImageData es [] = Inr r" and "length STYLE_KEYS \<le> length r"
  shows "set STYLE_KEYS \<subseteq> fst ` set es"
proof -
  let ?K = "fst ` set es"
  let ?n = "\<lambda>k. name (the (map_of STYLES k))"
  from collectImageData_keys[OF assms(1)]
  have sub: "?K \<subseteq> set STYLE_KEYS" and keys: "fst ` set r = ?n ` ?K" and d: "distinct (map fst r)"
    by simp_all
  from d have "length r = card (set (map fst r))" by (simp add: distinct_card del: set_map)
  also have "\<dots> = card (?n ` ?K)" using keys by simp
  also have "\<dots> \<le> card ?K" by (rule card_image_le) simp
  finally have "length STYLE_KEYS \<le> card ?K" using assms(2) by simp
  moreover have "card (set STYLE_KEYS) = length STYLE_KEYS"
    using distinct_STYLE_KEYS by (rule distinct_card)
  ultimately have "card (set STYLE_KEYS) \<le> card ?K" by simp
  with sub have "?K = set STYLE_KEYS" by (intro card_seteq) simp_all
  then show ?thesis by simp
qed

lemma composed_allDone:
  assumes "collectImageData (doneEntries (generatedImages a)) [] = Inr r"
    and "length STYLE_KEYS \<le> length r"
  shows "allDone a"
  unfolding allDone_def
proof
  fix k assume "k \<in> set STYLE_KEYS"
  with imageData_complete[OF assms] obtain u where "(k, u) \<in> set (doneEntries (generatedImages a))"
    by force
  from doneEntries_member[OF this]
  show "\<exists>g u. (k, g) \<in> set (generatedImages a) \<and> status g = Done \<and> url g = Some u \<and> u \<noteq> []"
    by blast
qed

subsection \<open>Style keys only\<close>

lemma set_running_update:
  assumes "w < length ws"
  shows "set (running (ws[w := x])) \<subseteq> set (running ws) \<union> set (running [x])"
proof
  fix k assume "k \<in> set (running (ws[w := x]))"
  then have "0 < count_list (running (ws[w := x])) k" by (simp add: count_list_pos_iff)
  with running_update[OF assms, of x k]
  have "0 < count_list (running ws) k \<or> 0 < count_list (running [x]) k" by arith
  then show "k \<in> set (running ws) \<union> set (running [x])"
    by (simp only: count_list_pos_iff Un_iff)
qed

lemma running_nth_member:
  "w < length ws \<Longrightarrow> ws ! w = InProcessStyle k t \<Longrightarrow> k \<in> set (running ws)"
  using running_member_count[of w ws k t] by (simp add: count_list_pos_iff)

lemma keys_remove_nth: "fst ` set (take i r @ drop (Suc i) r) \<subseteq> fst ` set r"
  by (auto dest: in_set_takeD in_set_dropD)

lemma keys_list_update:
  "i < length r \<Longrightarrow> fst (r ! i) = k \<Longrightarrow> fst ` set (r[i := (k, t)]) \<subseteq> fst ` set r"
proof -
  assume "i < length r" and "fst (r ! i) = k"
  then have "map fst (r[i := (k, t)]) = map fst r" by (rule map_fst_update_same)
  then have "set (map fst (r[i := (k, t)])) = set (map fst r)" by simp
  then show ?thesis by simp
qed

lemma earlier_step:
  assumes "step e a = Some a'"
  shows "earlier a' = earlier a"
  using assms by (cases rule: step_elim) (simp_all add: setGeneratedImage_def)

lemma styleKeysOnly_step:
  assumes "step e a = Some a'" and inv: "styleKeysOnly a"
    and offered: "\<And>k. e = RegenerateClick k \<Longrightarrow> k \<in> set STYLE_KEYS"
  shows "styleKeysOnly a'"
proof -
  from inv have m: "fst ` set (generatedImages a) \<subseteq> set STYLE_KEYS"
    and q: "set (stylesQueue a) \<subseteq> set STYLE_KEYS"
    and r: "set (running (workers a)) \<subseteq> set STYLE_KEYS"
    and g: "fst ` set (regenerating a) \<subseteq> set STYLE_KEYS"
    by (simp_all add: styleKeysOnly_def)
  from inv earlier_step[OF assms(1)]
  have p: "\<forall>p \<in> set (earlier a').
         set (fst p) \<subseteq> set STYLE_KEYS \<and> set (running (fst (snd p))) \<subseteq> set STYLE_KEYS"
    by (simp add: styleKeysOnly_def)
  have "fst ` set (generatedImages a') \<subseteq> set STYLE_KEYS \<and>
      set (stylesQueue a') \<subseteq> set STYLE_KEYS \<and>
      set (running (workers a')) \<subseteq> set STYLE_KEYS \<and>
      fst ` set (regenerating a') \<subseteq> set STYLE_KEYS"
    using assms(1)
  proof (cases rule: step_elim)
    case (LoopReturn w)
    with set_running_update[of w "workers a" Returned] m q r g show ?thesis
      by auto
  next
    case (LoopSkip w rest)
    with m q r g show ?thesis by auto
  next
    case (LoopThrow w k rest)
    with q show ?thesis by auto
  next
    case (LoopStart w k rest)
    with set_running_update[of w "workers a" "InProcessStyle k AwaitGenerate"] m q r g
    show ?thesis by auto
  next
    case (SettleFail w k t err)
    from running_nth_member[OF SettleFail(2,3)] r have "k \<in> set STYLE_KEYS" by blast
    with SettleFail set_running_update[of w "workers a" AtLoop] m q r g show ?thesis
      by (auto simp add: setGeneratedImage_def dom_update)
  next
    case (SettleGenerated w k u)
    from running_nth_member[OF SettleGenerated(2,3)] r have "k \<in> set STYLE_KEYS" by blast
    with SettleGenerated
      set_running_update[of w "workers a" "InProcessStyle k (AwaitWatermark u)"] m q r g
    show ?thesis by auto
  next
    case (SettleDone w k u v)
    from running_nth_member[OF SettleDone(2,3)] r have "k \<in> set STYLE_KEYS" by blast
    with SettleDone set_running_update[of w "workers a" AtLoop] m q r g show ?thesis
      by (auto simp add: setGeneratedImage_def dom_update)
  next
    case Completion
    with m q r g show ?thesis by simp
  next
    case (RegenNoImage k)
    with m q r g show ?thesis by simp
  next
    case (RegenPending k)
    with m q r g show ?thesis by simp
  next
    case (RegenThrow k)
    with offered show ?thesis by simp
  next
    case (RegenStart k)
    with m q r g show ?thesis
      by (auto simp add: setGeneratedImage_def dom_update)
  next
    case (RegenFail i k t err)
    then have "k \<in> fst ` set (regenerating a)" by (metis fst_conv image_eqI nth_mem)
    with g have "k \<in> set STYLE_KEYS" by blast
    with RegenFail keys_remove_nth[of i "regenerating a"] m q r g show ?thesis
      by (auto simp add: setGeneratedImage_def dom_update)
  next
    case (RegenGenerated i k u)
    with keys_list_update[of i "regenerating a" k "AwaitWatermark u"] m q r g show ?thesis
      by auto
  next
    case (RegenDone i k u v)
    then have "k \<in> fst ` set (regenerating a)" by (metis fst_conv image_eqI nth_mem)
    with g have "k \<in> set STYLE_KEYS" by blast
    with RegenDone keys_remove_nth[of i "regenerating a"] m q r g show ?thesis
      by (auto simp add: setGeneratedImage_def dom_update)
  qed
  with p show ?thesis by (simp add: styleKeysOnly_def)
qed

lemma keys_initialImages: "fst ` set initialImages \<subseteq> set STYLE_KEYS"
proof
  fix k assume "k \<in> fst ` set initialImages"
  then have "map_of initialImages k \<noteq> None" by (simp add: map_of_eq_None_iff)
  then show "k \<in> set STYLE_KEYS" by (simp add: map_of_initialImages split: if_splits)
qed

lemma styleKeysOnly_handleGenerateClick:
  "styleKeysOnly a \<Longrightarrow> styleKeysOnly (handleGenerateClick a)"
  by (simp add: handleGenerateClick_def styleKeysOnly_def keys_initialImages
      running_replicate_AtLoop)

lemma styleKeysOnly_handlers:
  assumes "styleKeysOnly a"
  shows "styleKeysOnly (handleImageUpload a)"
    and "styleKeysOnly (onloadend result a)"
    and "styleKeysOnly (handleCropConfirm u a)"
    and "styleKeysOnly (handleCropCancel a)"
    and "styleKeysOnly (handleReset a)"
  using assms
  by (simp_all add: styleKeysOnly_def handleImageUpload_def onloadend_def handleCropConfirm_def
      handleCropCancel_def handleReset_def)

lemma stepEarlier_elim [consumes 1]:
  assumes "stepEarlier j e a = Some a'"
  obtains queue ws awaiting b where "j < length (earlier a)" "isPoolEvent e"
    "earlier a ! j = (queue, ws, awaiting)"
    "step e (a\<lparr>stylesQueue := queue, workers := ws, awaitingAll := awaiting\<rparr>) = Some b"
    "a' = b\<lparr>stylesQueue := stylesQueue a, workers := workers a, awaitingAll := awaitingAll a,
            earlier := (earlier a)[j := (stylesQueue b, workers b, awaitingAll b)]\<rparr>"
  using assms by (auto simp add: stepEarlier_def split: if_splits prod.splits option.splits)

lemma styleKeysOnly_stepEarlier:
  assumes "stepEarlier j e a = Some a'" and inv: "styleKeysOnly a"
  shows "styleKeysOnly a'"
  using assms(1)
proof (cases rule: stepEarlier_elim)
  case (1 queue ws awaiting b)
  let ?a = "a\<lparr>stylesQueue := queue, workers := ws, awaitingAll := awaiting\<rparr>"
  from 1(1,3) have mem: "(queue, ws, awaiting) \<in> set (earlier a)" by (metis nth_mem)
  from inv have "\<forall>p \<in> set (earlier a).
      set (fst p) \<subseteq> set STYLE_KEYS \<and> set (running (fst (snd p))) \<subseteq> set STYLE_KEYS"
    by (simp add: styleKeysOnly_def)
  then have ea: "\<And>p. p \<in> set (earlier a) \<Longrightarrow>
      set (fst p) \<subseteq> set STYLE_KEYS \<and> set (running (fst (snd p))) \<subseteq> set STYLE_KEYS"
    by blast
  from ea[OF mem]
  have "set queue \<subseteq> set STYLE_KEYS \<and> set (running ws) \<subseteq> set STYLE_KEYS" by simp
  with inv have "styleKeysOnly ?a" by (simp add: styleKeysOnly_def)
  moreover from 1(2) have "\<And>k. e = RegenerateClick k \<Longrightarrow> k \<in> set STYLE_KEYS" by auto
  ultimately have b: "styleKeysOnly b" using 1(4) styleKeysOnly_step[of e ?a b] by blast
  from earlier_step[OF 1(4)] have eb: "earlier b = earlier a" by simp
  let ?p = "(stylesQueue b, workers b, awaitingAll b)"
  have sub: "set ((earlier a)[j := ?p]) \<subseteq> insert ?p (set (earlier a))"
    by (rule set_update_subset_insert)
  from b have bp: "set (fst ?p) \<subseteq> set STYLE_KEYS \<and> set (running (fst (snd ?p))) \<subseteq> set STYLE_KEYS"
    by (simp add: styleKeysOnly_def)
  have "\<forall>p \<in> set ((earlier a)[j := ?p]).
      set (fst p) \<subseteq> set STYLE_KEYS \<and> set (running (fst (snd p))) \<subseteq> set STYLE_KEYS"
  proof
    fix p assume "p \<in> set ((earlier a)[j := ?p])"
    with sub have "p = ?p \<or> p \<in> set (earlier a)" by blast
    then show "set (fst p) \<subseteq> set STYLE_KEYS \<and> set (running (fst (snd p))) \<subseteq> set STYLE_KEYS"
    proof
      assume "p = ?p"
      with bp show ?thesis by blast
    next
      assume "p \<in> set (earlier a)"
      then show ?thesis by (rule ea)
    qed
  qed
  with b inv 1(5) show ?thesis by (simp add: styleKeysOnly_def)
qed

lemma styleKeysOnly_act:
  assumes "act x a = Some a'" and inv: "styleKeysOnly a"
  shows "styleKeysOnly a'"
proof (cases x)
  case FileChosen
  with assms(1) have "a' = handleImageUpload a" by (auto split: if_splits)
  with inv show ?thesis by (simp add: styleKeysOnly_handlers)
next
  case (FileLoaded result)
  with assms(1) have "a' = onloadend result a" by (auto split: if_splits)
  with inv show ?thesis by (simp add: styleKeysOnly_handlers)
next
  case (CropConfirm u)
  with assms(1) have "a' = handleCropConfirm u a" by (auto split: if_splits)
  with inv show ?thesis by (simp add: styleKeysOnly_handlers)
next
  case CropCancel
  with assms(1) have "a' = handleCropCancel a" by (auto split: if_splits)
  with inv show ?thesis by (simp add: styleKeysOnly_handlers)
next
  case GenerateClick
  with assms(1) have "a' = handleGenerateClick a" by (auto split: if_splits)
  with inv show ?thesis by (simp add: styleKeysOnly_handleGenerateClick)
next
  case ResetClick
  with assms(1) have "a' = handleReset a" by (auto split: if_splits)
  with inv show ?thesis by (simp add: styleKeysOnly_handlers)
next
  case (Internal e)
  show ?thesis
  proof (cases e)
    case (RegenerateClick k)
    with Internal assms(1) have "k \<in> set STYLE_KEYS" and "step e a = Some a'"
      by (auto split: if_splits)
    with RegenerateClick inv show ?thesis
      using styleKeysOnly_step[of e a a'] by simp
  next
    case (Loop w)
    with Internal assms show ?thesis using styleKeysOnly_step[of e a a'] by simp
  next
    case (Settle w r)
    with Internal assms show ?thesis using styleKeysOnly_step[of e a a'] by simp
  next
    case AllSettled
    with Internal assms show ?thesis using styleKeysOnly_step[of e a a'] by simp
  next
    case (RegenerateSettle i r)
    with Internal assms show ?thesis using styleKeysOnly_step[of e a a'] by simp
  qed
next
  case (Earlier j e)
  with assms show ?thesis using styleKeysOnly_stepEarlier[of j e a a'] by simp
qed

lemma styleKeysOnly_session:
  "session xs a = Some a' \<Longrightarrow> styleKeysOnly a \<Longrightarrow> styleKeysOnly a'"
proof (induction xs arbitrary: a)
  case Nil
  then show ?case by simp
next
  case (Cons x xs)
  then obtain a1 where "act x a = Some a1" "session xs a1 = Some a'"
    by (auto split: option.splits)
  with Cons.IH[of a1] Cons.prems(2) styleKeysOnly_act show ?case by blast
qed

lemma styleKeysOnly_mounted: "styleKeysOnly mountedApp"
  by (simp add: styleKeysOnly_def mountedApp_def)

subsection \<open>Calm sessions\<close>

lemma appState_step_cases:
  assumes "step e a = Some a'"
  shows "appState a' = appState a \<or> (awaitingAll a \<and> appState a' = ResultsShown)"
  using assms by (cases rule: step_elim) (simp_all add: setGeneratedImage_def)

lemma quiet_step:
  assumes "step e a = Some a'" and q: "quiet a" and nr: "\<And>k. e \<noteq> RegenerateClick k"
  shows "quiet a'"
proof -
  from q have sq: "stylesQueue a = []" and ru: "running (workers a) = []"
    and rg: "regenerating a = []" and aw: "\<not> awaitingAll a"
    by (simp_all add: quiet_def active_def)
  from assms(1) show ?thesis
  proof (cases rule: step_elim)
    case (LoopReturn w)
    then have "running ((workers a)[w := Returned]) = running (workers a)"
      by (simp add: running_update_same)
    with LoopReturn q show ?thesis by (simp add: quiet_def active_def)
  next
    case (LoopSkip w rest) with sq show ?thesis by simp
  next
    case (LoopThrow w k rest) with sq show ?thesis by simp
  next
    case (LoopStart w k rest) with sq show ?thesis by simp
  next
    case (SettleFail w k t err)
    from running_nth_member[OF SettleFail(2,3)] ru show ?thesis by simp
  next
    case (SettleGenerated w k u)
    from running_nth_member[OF SettleGenerated(2,3)] ru show ?thesis by simp
  next
    case (SettleDone w k u v)
    from running_nth_member[OF SettleDone(2,3)] ru show ?thesis by simp
  next
    case Completion with aw show ?thesis by simp
  next
    case (RegenNoImage k) with nr[of k] show ?thesis by simp
  next
    case (RegenPending k) with nr[of k] show ?thesis by simp
  next
    case (RegenThrow k) with nr[of k] show ?thesis by simp
  next
    case (RegenStart k) with nr[of k] show ?thesis by simp
  next
    case (RegenFail i k t err) with rg show ?thesis by simp
  next
    case (RegenGenerated i k u) with rg show ?thesis by simp
  next
    case (RegenDone i k u v) with rg show ?thesis by simp
  qed
qed

lemma orderly_step:
  assumes st: "step e a = Some a'" and inv: "orderly a"
    and offered: "\<And>k. e = RegenerateClick k \<Longrightarrow> cardsShown a \<and> k \<in> set STYLE_KEYS"
  shows "orderly a'"
proof -
  from inv have sw: "singleWriter a" and ta: "transitionsAllowed a" and ko: "styleKeysOnly a"
    and ea: "earlier a = []"
    and shown: "cardsShown a \<Longrightarrow> truthy (croppedImageForDisplay a) \<and>
         (\<forall>k \<in> set STYLE_KEYS. map_of (generatedImages a) k \<noteq> None)"
    and hidden: "\<not> cardsShown a \<Longrightarrow> quiet a"
    by (simp_all add: orderly_def)
  from ko have qk: "set (stylesQueue a) \<subseteq> set STYLE_KEYS" by (simp add: styleKeysOnly_def)
  from st qk sw have c1: "singleWriter a'" by (rule singleWriter_step_keys)
  from st qk sw _ ta have c2: "transitionsAllowed a'"
  proof (rule transitionsAllowed_step_keys)
    fix k assume "e = RegenerateClick k" and "k \<in> set STYLE_KEYS"
    with offered shown show "map_of (generatedImages a) k \<noteq> None" by blast
  qed
  from st ko have c3: "styleKeysOnly a'"
    by (rule styleKeysOnly_step) (simp add: offered)
  from earlier_step[OF st] ea have c4: "earlier a' = []" by simp
  have earlierShown: "cardsShown a' \<Longrightarrow> cardsShown a"
  proof -
    assume s': "cardsShown a'"
    show "cardsShown a"
    proof (rule ccontr)
      assume n: "\<not> cardsShown a"
      from hidden[OF n] have "\<not> awaitingAll a" by (simp add: quiet_def)
      with appState_step_cases[OF st] have "appState a' = appState a" by blast
      with s' n show False by (simp add: cardsShown_def)
    qed
  qed
  have c5: "cardsShown a' \<longrightarrow>
         truthy (croppedImageForDisplay a') \<and>
         (\<forall>k \<in> set STYLE_KEYS. map_of (generatedImages a') k \<noteq> None)"
  proof
    assume "cardsShown a'"
    from shown[OF earlierShown[OF this]] croppedImage_step[OF st] present_step[OF st]
    show "truthy (croppedImageForDisplay a') \<and>
         (\<forall>k \<in> set STYLE_KEYS. map_of (generatedImages a') k \<noteq> None)"
      by simp
  qed
  have c6: "\<not> cardsShown a' \<longrightarrow> quiet a'"
  proof
    assume n': "\<not> cardsShown a'"
    have n: "\<not> cardsShown a"
    proof
      assume s: "cardsShown a"
      with appState_step_cases[OF st] have "cardsShown a'" by (auto simp add: cardsShown_def)
      with n' show False by simp
    qed
    from st hidden[OF n] show "quiet a'"
    proof (rule quiet_step)
      fix k show "e \<noteq> RegenerateClick k" using offered[of k] n by blast
    qed
  qed
  from c1 c2 c3 c4 c5 c6 show ?thesis by (simp add: orderly_def)
qed

lemma emptied_orderly:
  assumes inv: "orderly a" and q: "quiet a"
    and f: "active a' = active a" "awaitingAll a' = awaitingAll a" "writes a' = writes a"
       "earlier a' = earlier a" "generatedImages a' = []" "\<not> cardsShown a'"
       "stylesQueue a' = stylesQueue a" "workers a' = workers a" "regenerating a' = regenerating a"
  shows "orderly a'"
proof -
  from q f have "active a' = []" by (simp add: quiet_def)
  moreover from f have "\<And>k. \<not> pendingIn a' k" by (simp add: pendingIn_def)
  ultimately have c1: "singleWriter a'" by (simp add: singleWriter_def)
  from inv f have c2: "transitionsAllowed a'" by (simp add: orderly_def transitionsAllowed_def)
  from inv f have c3: "styleKeysOnly a'" by (simp add: orderly_def styleKeysOnly_def)
  from inv f have c4: "earlier a' = []" by (simp add: orderly_def)
  from q f have c6: "quiet a'" by (simp add: quiet_def)
  from c1 c2 c3 c4 c6 f(6) show ?thesis by (simp add: orderly_def)
qed

lemma unchanged_orderly:
  assumes inv: "orderly a" and q: "quiet a"
    and f: "active a' = active a" "awaitingAll a' = awaitingAll a" "writes a' = writes a"
       "earlier a' = earlier a" "generatedImages a' = generatedImages a" "\<not> cardsShown a'"
       "stylesQueue a' = stylesQueue a" "workers a' = workers a" "regenerating a' = regenerating a"
  shows "orderly a'"
proof -
  from inv f have c1: "singleWriter a'" by (simp add: orderly_def singleWriter_def pendingIn_def)
  from inv f have c2: "transitionsAllowed a'" by (simp add: orderly_def transitionsAllowed_def)
  from inv f have c3: "styleKeysOnly a'" by (simp add: orderly_def styleKeysOnly_def)
  from inv f have c4: "earlier a' = []" by (simp add: orderly_def)
  from q f have c6: "quiet a'" by (simp add: quiet_def)
  from c1 c2 c3 c4 c6 f(6) show ?thesis by (simp add: orderly_def)
qed

lemma orderly_handleGenerateClick:
  assumes inv: "orderly a" and q: "quiet a" and t: "truthy (croppedImageForDisplay a)"
  shows "orderly (handleGenerateClick a)"
proof -
  let ?d = "handleGenerateClick a"
  from q have rg: "regenerating a = []" and aw: "\<not> awaitingAll a"
    by (simp_all add: quiet_def active_def)
  from t rg have c1: "singleWriter ?d" by (rule singleWriter_start)
  from t have c2: "transitionsAllowed ?d"
    by (simp add: handleGenerateClick_def transitionsAllowed_def)
  from inv have c3: "styleKeysOnly ?d" by (simp add: orderly_def styleKeysOnly_handleGenerateClick)
  from inv t aw have c4: "earlier ?d = []" by (simp add: orderly_def handleGenerateClick_def)
  from t have c5: "cardsShown ?d \<and> truthy (croppedImageForDisplay ?d) \<and>
         (\<forall>k \<in> set STYLE_KEYS. map_of (generatedImages ?d) k \<noteq> None)"
    by (simp add: handleGenerateClick_def cardsShown_def map_of_initialImages)
  from c1 c2 c3 c4 c5 show ?thesis by (simp add: orderly_def)
qed

lemma orderly_act:
  assumes ac: "act x a = Some a'" and inv: "orderly a"
    and cm: "emptiesMapping x \<longrightarrow> quiet a"
  shows "orderly a'"
proof (cases x)
  case FileChosen
  with ac have a': "a' = handleImageUpload a" and i: "appState a = Idle"
    by (auto split: if_splits)
  from inv i have q: "quiet a" by (simp add: orderly_def cardsShown_def)
  from inv q show ?thesis
    by (rule unchanged_orderly)
      (simp_all add: a' i handleImageUpload_def active_def cardsShown_def)
next
  case (FileLoaded result)
  with ac have a': "a' = onloadend result a" by (auto split: if_splits)
  from FileLoaded cm have q: "quiet a" by simp
  from inv q show ?thesis
    by (rule emptied_orderly) (simp_all add: a' onloadend_def active_def cardsShown_def)
next
  case (CropConfirm u)
  with ac have a': "a' = handleCropConfirm u a" and i: "appState a = Cropping"
    by (auto split: if_splits)
  from inv i have q: "quiet a" by (simp add: orderly_def cardsShown_def)
  from inv q show ?thesis
    by (rule unchanged_orderly)
      (simp_all add: a' handleCropConfirm_def active_def cardsShown_def)
next
  case CropCancel
  with ac have a': "a' = handleCropCancel a" and i: "appState a = Cropping"
    by (auto split: if_splits)
  from inv i have q: "quiet a" by (simp add: orderly_def cardsShown_def)
  from inv q show ?thesis
    by (rule unchanged_orderly)
      (simp_all add: a' handleCropCancel_def active_def cardsShown_def)
next
  case GenerateClick
  with ac have a': "a' = handleGenerateClick a" and i: "appState a = ImageUploaded"
    and t: "truthy (croppedImageForDisplay a)"
    by (auto split: if_splits)
  from inv i have q: "quiet a" by (simp add: orderly_def cardsShown_def)
  from inv q t show ?thesis unfolding a' by (rule orderly_handleGenerateClick)
next
  case ResetClick
  with ac have a': "a' = handleReset a" by (auto split: if_splits)
  from ResetClick cm have q: "quiet a" by simp
  from inv q show ?thesis
    by (rule emptied_orderly) (simp_all add: a' handleReset_def active_def cardsShown_def)
next
  case (Internal e)
  show ?thesis
  proof (cases "\<exists>k. e = RegenerateClick k")
    case True
    then obtain k where e: "e = RegenerateClick k" by blast
    with Internal ac have "cardsShown a \<and> k \<in> set STYLE_KEYS" and "step e a = Some a'"
      by (auto simp add: cardsShown_def split: if_splits)
    with e inv show ?thesis using orderly_step[of e a a'] by simp
  next
    case False
    with Internal ac have "step e a = Some a'" by (cases e) simp_all
    with False inv show ?thesis using orderly_step[of e a a'] by blast
  qed
next
  case (Earlier j e)
  with ac inv show ?thesis by (simp add: stepEarlier_def orderly_def)
qed

lemma orderly_session:
  "session xs a = Some s \<Longrightarrow> calm xs a \<Longrightarrow> orderly a \<Longrightarrow> orderly s"
proof (induction xs arbitrary: a)
  case Nil
  then show ?case by simp
next
  case (Cons x xs)
  from Cons.prems(1) obtain a1 where a1: "act x a = Some a1" and s: "session xs a1 = Some s"
    by (auto split: option.splits)
  from Cons.prems(2) a1 have e: "emptiesMapping x \<longrightarrow> quiet a" and c: "calm xs a1" by simp_all
  from a1 Cons.prems(3) e have "orderly a1" by (rule orderly_act)
  with Cons.IH[OF s c] show ?case .
qed

lemma orderly_mounted: "orderly mountedApp"
  by (simp add: orderly_def mountedApp_def singleWriter_def transitionsAllowed_def
      styleKeysOnly_def cardsShown_def quiet_def active_def pendingIn_def)

lemma session_take:
  "session xs a = Some s \<Longrightarrow> \<exists>p. session (take n xs) a = Some p"
proof (induction xs arbitrary: a n)
  case Nil
  then show ?case by simp
next
  case (Cons x xs)
  then show ?case by (cases n) (auto split: option.splits)
qed

lemma calm_take: "calm xs a \<Longrightarrow> calm (take n xs) a"
proof (induction xs arbitrary: a n)
  case Nil
  then show ?case by simp
next
  case (Cons x xs)
  then show ?case by (cases n) (auto split: option.splits)
qed

lemma session_snoc:
  "session xs a = Some s \<Longrightarrow> act x s = Some s' \<Longrightarrow> session (xs @ [x]) a = Some s'"
  by (induction xs arbitrary: a) (auto split: option.splits)

section \<open>The dispatch processes every key exactly once\<close>

text \<open>
  Claim C1. In every state that a call of \<open>handleGenerateClick\<close> (made with a cropped
  image, so that it gets past its guard and dispatches) can reach, under every
  interleaving of the workers and of regenerations: the keys for which a worker has
  called \<open>processStyle\<close>, followed by the keys still in the queue, are exactly
  \<open>STYLE_KEYS\<close> in order, so keys leave the queue from the front and each removed key
  gets its call; no key is claimed twice; every call is in flight or has updated its
  entry; once all workers have returned the queue is empty and every style key has
  had exactly one call and exactly one update by the pool; and the pool does get there:
  whatever the outcomes of the calls still to settle, it runs on to a state in which all
  workers have returned.
\<close>

theorem every_key_processed_once:
  assumes "truthy (croppedImageForDisplay a)" and "exec es (handleGenerateClick a) = Some s"
  shows "poolStarted s @ stylesQueue s = STYLE_KEYS \<and>
         distinct (poolStarted s) \<and>
         length (poolStarted s) = length (poolWritten s) + length (running (workers s)) \<and>
         ((\<forall>x \<in> set (workers s). x = Returned) \<longrightarrow>
            stylesQueue s = [] \<and> poolStarted s = STYLE_KEYS \<and>
            (\<forall>k \<in> set STYLE_KEYS. count_list (poolStarted s) k = 1 \<and> count_list (poolWritten s) k = 1)) \<and>
         (\<exists>s'. exec (schedule outcome (remaining s) s) s = Some s' \<and>
               (\<forall>x \<in> set (workers s'). x = Returned) \<and> poolStarted s' = STYLE_KEYS \<and>
               (\<forall>k \<in> set STYLE_KEYS. count_list (poolWritten s') k = 1))"
proof -
  note inv = dispatch_invariants[OF assms]
  from inv(1) have q: "poolStarted s @ stylesQueue s = STYLE_KEYS" by (simp add: accounted_def)
  then have d: "distinct (poolStarted s)"
    using distinct_STYLE_KEYS by (metis distinct_append)
  from inv(1) have len: "length (poolWritten s) + length (running (workers s)) = length (poolStarted s)"
    by (intro count_list_length) (simp add: accounted_def)
  have fin: "stylesQueue s = [] \<and> poolStarted s = STYLE_KEYS \<and>
            (\<forall>k \<in> set STYLE_KEYS. count_list (poolStarted s) k = 1 \<and> count_list (poolWritten s) k = 1)"
    if r: "\<forall>x \<in> set (workers s). x = Returned"
  proof -
    from inv(2) have ne: "workers s \<noteq> []" by (auto simp add: concurrencyLimit_def)
    have one: "count_list STYLE_KEYS k = 1" if "k \<in> set STYLE_KEYS" for k
      using that distinct_STYLE_KEYS by (simp add: count_list_distinct)
    from finished_pool[OF inv(1) ne r] one show ?thesis by simp
  qed
  from fin have "(\<forall>x \<in> set (workers s). x = Returned) \<longrightarrow>
            stylesQueue s = [] \<and> poolStarted s = STYLE_KEYS \<and>
            (\<forall>k \<in> set STYLE_KEYS. count_list (poolStarted s) k = 1 \<and> count_list (poolWritten s) k = 1)"
    by (rule impI)
  moreover from dispatch_completes[OF assms, of outcome]
  have "\<exists>s'. exec (schedule outcome (remaining s) s) s = Some s' \<and>
               (\<forall>x \<in> set (workers s'). x = Returned) \<and> poolStarted s' = STYLE_KEYS \<and>
               (\<forall>k \<in> set STYLE_KEYS. count_list (poolWritten s') k = 1)"
    by blast
  ultimately show ?thesis using q d len[symmetric] by (intro conjI)
qed

theorem every_key_processed_once_witness:
  "\<exists>s. truthy (croppedImageForDisplay uploadedApp) \<and>
       exec fullRun (handleGenerateClick uploadedApp) = Some s \<and>
       (\<forall>x \<in> set (workers s). x = Returned) \<and>
       poolStarted s = STYLE_KEYS \<and>
       (\<forall>k \<in> set STYLE_KEYS. count_list (poolStarted s) k = 1 \<and> count_list (poolWritten s) k = 1)"
proof -
  have t: "truthy (croppedImageForDisplay uploadedApp)" by (simp add: uploadedApp_def)
  have "exec fullRun (handleGenerateClick uploadedApp) \<noteq> None" by code_simp
  then obtain s where s: "exec fullRun (handleGenerateClick uploadedApp) = Some s" by blast
  have "map_option workers (exec fullRun (handleGenerateClick uploadedApp)) = Some [Returned, Returned, Returned]"
    by code_simp
  with s have r: "\<forall>x \<in> set (workers s). x = Returned" by simp
  from every_key_processed_once[OF t s] r t s show ?thesis by blast
qed

section \<open>The pool never runs more than three jobs at once\<close>

text \<open>
  Claim C2. In every state that a dispatching call of \<open>handleGenerateClick\<close> can reach,
  under every interleaving, the keys claimed by a worker whose \<open>processStyle\<close> call has
  not yet settled are at most \<open>concurrencyLimit\<close>, which is 3. They are counted twice:
  as the workers suspended inside \<open>processStyle\<close>, and as the calls started by the pool
  minus the entries the pool has updated. Calls of \<open>handleRegenerateStyle\<close> run outside
  the pool and are not counted.
\<close>

theorem at_most_limit_in_flight:
  assumes "truthy (croppedImageForDisplay a)" and "exec es (handleGenerateClick a) = Some s"
  shows "length (running (workers s)) \<le> concurrencyLimit \<and>
         length (poolStarted s) - length (poolWritten s) = length (running (workers s)) \<and>
         concurrencyLimit = 3"
proof -
  note inv = dispatch_invariants[OF assms]
  have "length (running (workers s)) \<le> length (workers s)" by (rule length_running)
  with inv(2) in_flight_count[OF inv(1)] show ?thesis by (simp add: concurrencyLimit_def)
qed

theorem at_most_limit_in_flight_witness:
  "\<exists>s. truthy (croppedImageForDisplay uploadedApp) \<and>
       exec [Loop 0, Loop 1, Loop 2] (handleGenerateClick uploadedApp) = Some s \<and>
       length (running (workers s)) = 3 \<and>
       length (running (workers s)) \<le> concurrencyLimit \<and>
       length (poolStarted s) - length (poolWritten s) = length (running (workers s))"
proof -
  have t: "truthy (croppedImageForDisplay uploadedApp)" by (simp add: uploadedApp_def)
  have "exec [Loop 0, Loop 1, Loop 2] (handleGenerateClick uploadedApp) \<noteq> None" by code_simp
  then obtain s where s: "exec [Loop 0, Loop 1, Loop 2] (handleGenerateClick uploadedApp) = Some s"
    by blast
  have "map_option (\<lambda>x. length (running (workers x)))
          (exec [Loop 0, Loop 1, Loop 2] (handleGenerateClick uploadedApp)) = Some 3"
    by code_simp
  with s have "length (running (workers s)) = 3" by simp
  with at_most_limit_in_flight[OF t s] t s show ?thesis by blast
qed

section \<open>The completion signal\<close>

text \<open>
  Claim C3. The statement after \<open>await Promise.all(workers)\<close>, which sets \<open>appState\<close> to
  \<open>results-shown\<close>, runs at most once, and \<open>appState\<close> is \<open>generating\<close> before it and
  \<open>results-shown\<close> after it. When it has run, all workers have returned, the queue is
  empty, and every style key has had an update by the pool that stored \<open>done\<close> or
  \<open>error\<close>; its entry in the result mapping is \<open>done\<close> or \<open>error\<close> unless a later
  \<open>handleRegenerateStyle\<close> call for that key is in flight. Conversely, when it has not
  run and the pool has stored a terminal status for every style key, no key is queued or
  in flight, so the remaining steps \<open>drain\<close> (each idle worker finds the queue empty and
  returns, then \<open>Promise.all\<close> resolves) can be taken and make it run. And from every
  reachable state, whatever the outcomes of the calls still to settle, the pool runs on
  until it has run.
\<close>

theorem completion_signal:
  assumes "truthy (croppedImageForDisplay a)" and "exec es (handleGenerateClick a) = Some s"
  shows "signalled s \<le> 1 \<and>
         appState s = (if signalled s = 0 then Generating else ResultsShown) \<and>
         (signalled s = 1 \<longrightarrow>
            (\<forall>x \<in> set (workers s). x = Returned) \<and> stylesQueue s = [] \<and>
            (\<forall>k \<in> set STYLE_KEYS.
               (\<exists>u \<in> set (writes s). isPool (who u) \<and> key u = k \<and> terminal (after u)) \<and>
               (\<exists>g. map_of (generatedImages s) k = Some g \<and>
                    (terminal g \<or> k \<in> fst ` set (regenerating s))))) \<and>
         (signalled s = 0 \<and> (\<forall>k \<in> set STYLE_KEYS. k \<in> set (poolWritten s)) \<longrightarrow>
            (\<exists>s'. exec (drain s) s = Some s' \<and> signalled s' = 1 \<and>
                  appState s' = ResultsShown \<and> generatedImages s' = generatedImages s)) \<and>
         (\<exists>s'. exec (schedule outcome (remaining s) s) s = Some s' \<and> signalled s' = 1)"
proof -
  note inv = dispatch_invariants[OF assms]
  from inv(3) have once: "signalled s \<le> 1" by (simp split: if_splits)
  from inv(3) have aw: "awaitingAll s = (signalled s = 0)" by (simp split: if_splits)
  from dispatch_appState[OF assms] aw
  have st: "appState s = (if signalled s = 0 then Generating else ResultsShown)" by simp
  have after: "(\<forall>x \<in> set (workers s). x = Returned) \<and> stylesQueue s = [] \<and>
            (\<forall>k \<in> set STYLE_KEYS.
               (\<exists>u \<in> set (writes s). isPool (who u) \<and> key u = k \<and> terminal (after u)) \<and>
               (\<exists>g. map_of (generatedImages s) k = Some g \<and>
                    (terminal g \<or> k \<in> fst ` set (regenerating s))))"
    if fired: "signalled s = 1"
  proof -
    from fired aw inv(4) have r: "\<forall>x \<in> set (workers s). x = Returned" by simp
    from inv(2) have ne: "workers s \<noteq> []" by (auto simp add: concurrencyLimit_def)
    note fin = finished_pool[OF inv(1) ne r]
    have idle: "running (workers s) = []" using r by (rule all_Returned_running)
    have "(\<exists>u \<in> set (writes s). isPool (who u) \<and> key u = k \<and> terminal (after u)) \<and>
          (\<exists>g. map_of (generatedImages s) k = Some g \<and>
               (terminal g \<or> k \<in> fst ` set (regenerating s)))"
      if k: "k \<in> set STYLE_KEYS" for k
    proof
      from fin(3)[of k] k distinct_STYLE_KEYS have "count_list (poolWritten s) k = 1"
        by (simp add: count_list_distinct_if)
      then have "k \<in> set (poolWritten s)" using count_list_pos_iff[of "poolWritten s" k] by simp
      then obtain u where u: "u \<in> set (writes s)" "isPool (who u)" "key u = k"
        using poolWritten_member by blast
      with dispatch_pool_writes_terminal[OF assms] have "terminal (after u)" by blast
      with u show "\<exists>u \<in> set (writes s). isPool (who u) \<and> key u = k \<and> terminal (after u)"
        by blast
    next
      from dispatch_present[OF assms k] obtain g where g: "map_of (generatedImages s) k = Some g"
        by blast
      show "\<exists>g. map_of (generatedImages s) k = Some g \<and>
               (terminal g \<or> k \<in> fst ` set (regenerating s))"
      proof (cases "status g = Pending")
        case True
        with g have "pendingIn s k" by (simp add: pendingIn_def)
        with dispatch_responsible[OF assms] have "0 < count_list (active s) k"
          by (simp add: responsible_def)
        then have "k \<in> set (active s)" by (simp add: count_list_pos_iff)
        with fin(1) idle have "k \<in> fst ` set (regenerating s)" by (simp add: active_def)
        with g show ?thesis by blast
      next
        case False
        with status_cases[of g] g show ?thesis by blast
      qed
    qed
    with r fin(1) show ?thesis by blast
  qed
  have before: "\<exists>s'. exec (drain s) s = Some s' \<and> signalled s' = 1 \<and>
                  appState s' = ResultsShown \<and> generatedImages s' = generatedImages s"
    if due: "signalled s = 0 \<and> (\<forall>k \<in> set STYLE_KEYS. k \<in> set (poolWritten s))"
  proof -
    from due have all: "\<forall>k \<in> set STYLE_KEYS. k \<in> set (poolWritten s)" by simp
    from due aw have w: "awaitingAll s" by simp
    from drain_completes[OF all_written_idle[OF inv(1) all] w] due show ?thesis by simp
  qed
  from after have a': "signalled s = 1 \<longrightarrow>
            (\<forall>x \<in> set (workers s). x = Returned) \<and> stylesQueue s = [] \<and>
            (\<forall>k \<in> set STYLE_KEYS.
               (\<exists>u \<in> set (writes s). isPool (who u) \<and> key u = k \<and> terminal (after u)) \<and>
               (\<exists>g. map_of (generatedImages s) k = Some g \<and>
                    (terminal g \<or> k \<in> fst ` set (regenerating s))))"
    by (rule impI)
  from before have b': "signalled s = 0 \<and> (\<forall>k \<in> set STYLE_KEYS. k \<in> set (poolWritten s)) \<longrightarrow>
            (\<exists>s'. exec (drain s) s = Some s' \<and> signalled s' = 1 \<and>
                  appState s' = ResultsShown \<and> generatedImages s' = generatedImages s)"
    by (rule impI)
  from dispatch_completes[OF assms, of outcome]
  have c': "\<exists>s'. exec (schedule outcome (remaining s) s) s = Some s' \<and> signalled s' = 1"
    by blast
  from once st a' b' c' show ?thesis by (intro conjI)
qed

theorem completion_signal_witness:
  "(\<exists>s. truthy (croppedImageForDisplay uploadedApp) \<and>
        exec fullRun (handleGenerateClick uploadedApp) = Some s \<and>
        signalled s = 1 \<and> appState s = ResultsShown \<and>
        (\<forall>k \<in> set STYLE_KEYS.
           \<exists>g. map_of (generatedImages s) k = Some g \<and>
                (terminal g \<or> k \<in> fst ` set (regenerating s)))) \<and>
   (\<exists>s s'. exec (butlast fullRun) (handleGenerateClick uploadedApp) = Some s \<and>
        signalled s = 0 \<and> (\<forall>k \<in> set STYLE_KEYS. k \<in> set (poolWritten s)) \<and>
        exec (drain s) s = Some s' \<and> signalled s' = 1)"
proof -
  have t: "truthy (croppedImageForDisplay uploadedApp)" by (simp add: uploadedApp_def)
  have "exec fullRun (handleGenerateClick uploadedApp) \<noteq> None" by code_simp
  then obtain s1 where s1: "exec fullRun (handleGenerateClick uploadedApp) = Some s1" by blast
  have "map_option signalled (exec fullRun (handleGenerateClick uploadedApp)) = Some 1"
    by code_simp
  with s1 have f1: "signalled s1 = 1" by simp
  have "exec (butlast fullRun) (handleGenerateClick uploadedApp) \<noteq> None" by code_simp
  then obtain s0 where s0: "exec (butlast fullRun) (handleGenerateClick uploadedApp) = Some s0"
    by blast
  have "map_option (\<lambda>x. (signalled x, poolWritten x))
          (exec (butlast fullRun) (handleGenerateClick uploadedApp)) =
        Some (0, [''watercolor'', ''sketch'', ''digital-painting'', ''vaporwave'', ''3d-render'',
                  ''impressionism'', ''pop-art'', ''comic-book'', ''anime''])"
    by code_simp
  with s0 have f0: "signalled s0 = 0"
    and w0: "poolWritten s0 = [''watercolor'', ''sketch'', ''digital-painting'', ''vaporwave'',
                  ''3d-render'', ''impressionism'', ''pop-art'', ''comic-book'', ''anime'']"
    by auto
  from w0 have all: "\<forall>k \<in> set STYLE_KEYS. k \<in> set (poolWritten s0)"
    by (simp add: STYLE_KEYS_eq)
  from completion_signal[OF t s1] f1 t s1
  have "\<exists>s. truthy (croppedImageForDisplay uploadedApp) \<and>
        exec fullRun (handleGenerateClick uploadedApp) = Some s \<and>
        signalled s = 1 \<and> appState s = ResultsShown \<and>
        (\<forall>k \<in> set STYLE_KEYS.
           \<exists>g. map_of (generatedImages s) k = Some g \<and>
                (terminal g \<or> k \<in> fst ` set (regenerating s)))"
    by (intro exI[of _ s1]) auto
  moreover from completion_signal[OF t s0] f0 all s0
  have "\<exists>s s'. exec (butlast fullRun) (handleGenerateClick uploadedApp) = Some s \<and>
        signalled s = 0 \<and> (\<forall>k \<in> set STYLE_KEYS. k \<in> set (poolWritten s)) \<and>
        exec (drain s) s = Some s' \<and> signalled s' = 1"
    by blast
  ultimately show ?thesis by blast
qed

section \<open>A failing job is isolated\<close>

text \<open>
  Claim C4. Let a dispatching call of \<open>handleGenerateClick\<close> have reached a state in which
  worker \<open>w\<close> is inside \<open>processStyle(k)\<close>, and let the promise it awaits (the generation
  or the watermark) reject with \<open>err\<close>. Then the step is taken and afterwards the entry of
  \<open>k\<close> is \<open>{ status: 'error', error: errorMessage err }\<close>, where the message is the
  \<open>Error\<close>'s own message or "An unknown error occurred." for any other value; every
  other entry, the queue, the other workers, the regenerations in flight and the
  completion count are unchanged; worker \<open>w\<close> is back at the head of its loop, where its
  next pass is enabled and claims the next queued key if there is one; and whatever the
  outcomes of the calls still to settle, the pool runs on to completion, where every style
  key has had exactly one update by the pool, storing \<open>done\<close> or \<open>error\<close>.
\<close>

theorem failure_is_isolated:
  assumes "truthy (croppedImageForDisplay a)" and "exec es (handleGenerateClick a) = Some s"
    and "w < length (workers s)" and "workers s ! w = InProcessStyle k t"
  shows "\<exists>s'. step (Settle w (Inl err)) s = Some s' \<and>
           map_of (generatedImages s') k =
             Some \<lparr>status = Error, url = None, error = Some (errorMessage err)\<rparr> \<and>
           errorMessage (ErrorObject message) = message \<and>
           errorMessage OtherValue = ''An unknown error occurred.'' \<and>
           (\<forall>k'. k' \<noteq> k \<longrightarrow> map_of (generatedImages s') k' = map_of (generatedImages s) k') \<and>
           workers s' = (workers s)[w := AtLoop] \<and>
           stylesQueue s' = stylesQueue s \<and> regenerating s' = regenerating s \<and>
           signalled s' = signalled s \<and>
           step (Loop w) s' = Some (workerLoop w s') \<and>
           (\<forall>k2 rest. stylesQueue s = k2 # rest \<longrightarrow>
              workers (workerLoop w s') ! w = InProcessStyle k2 AwaitGenerate \<and>
              stylesQueue (workerLoop w s') = rest) \<and>
           (\<exists>s''. exec (schedule outcome (remaining s') s') s' = Some s'' \<and> signalled s'' = 1 \<and>
              (\<forall>k' \<in> set STYLE_KEYS. count_list (poolWritten s'') k' = 1 \<and>
                 (\<exists>u \<in> set (writes s''). isPool (who u) \<and> key u = k' \<and> terminal (after u))))"
proof -
  let ?s' = "(setGeneratedImage (Pool w) k (errorImage (errorMessage err)) s)\<lparr>workers := (workers s)[w := AtLoop]\<rparr>"
  have st: "step (Settle w (Inl err)) s = Some ?s'"
    using assms(3,4) by (simp add: setGeneratedImage_fields)
  have e: "map_of (generatedImages ?s') k =
             Some \<lparr>status = Error, url = None, error = Some (errorMessage err)\<rparr>"
    by (simp add: setGeneratedImage_def update_conv' errorImage_def)
  have o: "\<forall>k'. k' \<noteq> k \<longrightarrow> map_of (generatedImages ?s') k' = map_of (generatedImages s) k'"
    by (simp add: setGeneratedImage_def update_conv')
  have f: "workers ?s' = (workers s)[w := AtLoop]" "stylesQueue ?s' = stylesQueue s"
    "regenerating ?s' = regenerating s" "signalled ?s' = signalled s"
    by (simp_all add: setGeneratedImage_def)
  have l: "step (Loop w) ?s' = Some (workerLoop w ?s')"
    using assms(3) by (simp add: setGeneratedImage_def)
  have n: "\<forall>k2 rest. stylesQueue s = k2 # rest \<longrightarrow>
              workers (workerLoop w ?s') ! w = InProcessStyle k2 AwaitGenerate \<and>
              stylesQueue (workerLoop w ?s') = rest"
  proof (intro allI impI)
    fix k2 rest assume q: "stylesQueue s = k2 # rest"
    from dispatch_invariants(1)[OF assms(1,2)] q have k2: "k2 \<in> set STYLE_KEYS"
      using queue_STYLE_KEYS[of s k2] by simp
    then have "k2 \<noteq> []" by (rule STYLE_KEYS_nonempty)
    moreover from k2 obtain st where "map_of STYLES k2 = Some st"
      using STYLES_lookup[of k2] by auto
    ultimately show "workers (workerLoop w ?s') ! w = InProcessStyle k2 AwaitGenerate \<and>
              stylesQueue (workerLoop w ?s') = rest"
      using q assms(3) by (simp add: workerLoop_def processStyle_def setGeneratedImage_def)
  qed
  from assms(2) st have ex: "exec (es @ [Settle w (Inl err)]) (handleGenerateClick a) = Some ?s'"
    by (simp add: exec_append)
  from dispatch_completes[OF assms(1) ex, of outcome]
  have c: "\<exists>s''. exec (schedule outcome (remaining ?s') ?s') ?s' = Some s'' \<and> signalled s'' = 1 \<and>
              (\<forall>k' \<in> set STYLE_KEYS. count_list (poolWritten s'') k' = 1 \<and>
                 (\<exists>u \<in> set (writes s''). isPool (who u) \<and> key u = k' \<and> terminal (after u)))"
    by blast
  have m: "errorMessage (ErrorObject message) = message"
    "errorMessage OtherValue = ''An unknown error occurred.''"
    by simp_all
  show ?thesis
    by (rule exI[of _ ?s'], intro conjI) (fact st e m o f l n c)+
qed

theorem failure_is_isolated_witness:
  "\<exists>s s'. truthy (croppedImageForDisplay uploadedApp) \<and>
       exec [Loop 0, Loop 1, Loop 2] (handleGenerateClick uploadedApp) = Some s \<and>
       1 < length (workers s) \<and> workers s ! 1 = InProcessStyle ''watercolor'' AwaitGenerate \<and>
       step (Settle 1 (Inl (ErrorObject ''quota exceeded''))) s = Some s' \<and>
       map_of (generatedImages s') ''watercolor'' =
         Some \<lparr>status = Error, url = None, error = Some ''quota exceeded''\<rparr> \<and>
       map_of (generatedImages s') ''sketch'' = map_of (generatedImages s) ''sketch'' \<and>
       stylesQueue s = ''vaporwave'' # drop 4 STYLE_KEYS \<and>
       workers (workerLoop 1 s') ! 1 = InProcessStyle ''vaporwave'' AwaitGenerate"
proof -
  let ?es = "[Loop 0, Loop 1, Loop 2]"
  have t: "truthy (croppedImageForDisplay uploadedApp)" by (simp add: uploadedApp_def)
  have "exec ?es (handleGenerateClick uploadedApp) \<noteq> None" by code_simp
  then obtain s where s: "exec ?es (handleGenerateClick uploadedApp) = Some s" by blast
  have "map_option (\<lambda>x. (workers x, stylesQueue x)) (exec ?es (handleGenerateClick uploadedApp)) =
        Some ([InProcessStyle ''digital-painting'' AwaitGenerate,
               InProcessStyle ''watercolor'' AwaitGenerate,
               InProcessStyle ''sketch'' AwaitGenerate], ''vaporwave'' # drop 4 STYLE_KEYS)"
    by code_simp
  with s have w: "workers s = [InProcessStyle ''digital-painting'' AwaitGenerate,
               InProcessStyle ''watercolor'' AwaitGenerate,
               InProcessStyle ''sketch'' AwaitGenerate]"
    and q: "stylesQueue s = ''vaporwave'' # drop 4 STYLE_KEYS" by auto
  from w have l: "1 < length (workers s)" and n: "workers s ! 1 = InProcessStyle ''watercolor'' AwaitGenerate"
    by simp_all
  from failure_is_isolated[OF t s l n, of "ErrorObject ''quota exceeded''"]
  obtain s' where a: "step (Settle 1 (Inl (ErrorObject ''quota exceeded''))) s = Some s'"
    and b: "map_of (generatedImages s') ''watercolor'' =
         Some \<lparr>status = Error, url = None,
               error = Some (errorMessage (ErrorObject ''quota exceeded''))\<rparr>"
    and c: "\<forall>k'. k' \<noteq> ''watercolor'' \<longrightarrow>
              map_of (generatedImages s') k' = map_of (generatedImages s) k'"
    and d: "\<forall>k2 rest. stylesQueue s = k2 # rest \<longrightarrow>
              workers (workerLoop 1 s') ! 1 = InProcessStyle k2 AwaitGenerate \<and>
              stylesQueue (workerLoop 1 s') = rest"
    by blast
  from b have b': "map_of (generatedImages s') ''watercolor'' =
         Some \<lparr>status = Error, url = None, error = Some ''quota exceeded''\<rparr>" by simp
  from c have c': "map_of (generatedImages s') ''sketch'' = map_of (generatedImages s) ''sketch''"
    by simp
  from d q have d': "workers (workerLoop 1 s') ! 1 = InProcessStyle ''vaporwave'' AwaitGenerate"
    by blast
  from t s l n a b' c' q d' show ?thesis by blast
qed

section \<open>Regenerating a pending key does nothing\<close>

text \<open>
  Claim C5. When the entry of \<open>styleKey\<close> in the result mapping has status \<open>pending\<close>,
  \<open>handleRegenerateStyle(styleKey)\<close> returns at once and leaves the whole state as it
  is: the entry stays \<open>pending\<close>, no other entry changes, no call of
  \<open>generateStyledImage\<close> is started and no call is put in flight. As a step, the click
  is always possible and yields the same state.
\<close>

theorem regenerate_pending_is_noop:
  assumes "map_of (generatedImages a) styleKey = Some g" and "status g = Pending"
  shows "handleRegenerateStyle styleKey a = a \<and>
         step (RegenerateClick styleKey) a = Some a \<and>
         map_of (generatedImages (handleRegenerateStyle styleKey a)) styleKey = Some g \<and>
         generatedImages (handleRegenerateStyle styleKey a) = generatedImages a \<and>
         started (handleRegenerateStyle styleKey a) = started a \<and>
         regenerating (handleRegenerateStyle styleKey a) = regenerating a \<and>
         writes (handleRegenerateStyle styleKey a) = writes a"
proof -
  from assms have "handleRegenerateStyle styleKey a = a"
    by (simp add: handleRegenerateStyle_def)
  with assms(1) show ?thesis by simp
qed

theorem regenerate_pending_is_noop_witness:
  "\<exists>s. exec [Loop 0] (handleGenerateClick uploadedApp) = Some s \<and>
       map_of (generatedImages s) ''digital-painting'' = Some pendingImage \<and>
       status pendingImage = Pending \<and>
       started s = [(Pool 0, ''digital-painting'')] \<and>
       handleRegenerateStyle ''digital-painting'' s = s \<and>
       started (handleRegenerateStyle ''digital-painting'' s) = [(Pool 0, ''digital-painting'')]"
proof -
  have "exec [Loop 0] (handleGenerateClick uploadedApp) \<noteq> None" by code_simp
  then obtain s where s: "exec [Loop 0] (handleGenerateClick uploadedApp) = Some s" by blast
  have "map_option (\<lambda>x. (map_of (generatedImages x) ''digital-painting'', started x))
          (exec [Loop 0] (handleGenerateClick uploadedApp)) =
        Some (Some pendingImage, [(Pool 0, ''digital-painting'')])"
    by code_simp
  with s have g: "map_of (generatedImages s) ''digital-painting'' = Some pendingImage"
    and st: "started s = [(Pool 0, ''digital-painting'')]" by auto
  have p: "status pendingImage = Pending" by (simp add: pendingImage_def)
  from regenerate_pending_is_noop[OF g p] s g p st show ?thesis by auto
qed

section \<open>Status transitions\<close>

text \<open>
  Claim C6, as amended. Let the page run from the mounted component, and let the result
  mapping be emptied (by the \<open>onloadend\<close> callback of a file read, or by \<open>handleReset\<close>)
  only while nothing is under way: no key queued, no call of \<open>processStyle\<close> or
  \<open>handleRegenerateStyle\<close> in flight, no call of \<open>handleGenerateClick\<close> waiting for its
  workers. Then, at every moment of the session, every recorded update of a style key's
  entry is allowed (from \<open>pending\<close> to \<open>done\<close> or \<open>error\<close>, or from \<open>done\<close> or \<open>error\<close>
  to \<open>pending\<close> by \<open>handleRegenerateStyle\<close>); a key is \<open>pending\<close> exactly when one
  piece of code (the queue, a worker, a regeneration) is responsible for it, and nobody is
  responsible for a key that is not; while the cards are shown, \<open>onRegenerate\<close> on a
  terminal style key calls \<open>handleRegenerateStyle\<close>, which makes the key \<open>pending\<close> and
  puts one call in flight; and a regeneration in flight has its key \<open>pending\<close> and, when
  its promise settles, stores \<open>error\<close> with the message of the rejection, or goes on from
  the generation to the watermark, or stores \<open>done\<close> with the watermarked url.
\<close>

theorem status_transitions:
  assumes "session xs mountedApp = Some s" and "calm xs mountedApp"
  shows "(\<forall>n. \<exists>p. session (take n xs) mountedApp = Some p \<and>
            (\<forall>u \<in> set (writes p). key u \<in> set STYLE_KEYS \<longrightarrow> allowed u)) \<and>
         (\<forall>k. count_list (active s) k = (if pendingIn s k then 1 else 0)) \<and>
         (\<forall>k \<in> set STYLE_KEYS. \<forall>g.
            (appState s = Generating \<or> appState s = ResultsShown) \<and>
            map_of (generatedImages s) k = Some g \<and> terminal g \<longrightarrow>
            act (Internal (RegenerateClick k)) s = Some (handleRegenerateStyle k s) \<and>
            map_of (generatedImages (handleRegenerateStyle k s)) k = Some pendingImage \<and>
            regenerating (handleRegenerateStyle k s) = regenerating s @ [(k, AwaitGenerate)]) \<and>
         (\<forall>i k t. i < length (regenerating s) \<and> regenerating s ! i = (k, t) \<longrightarrow>
            pendingIn s k \<and>
            (\<forall>err. \<exists>s'. step (RegenerateSettle i (Inl err)) s = Some s' \<and>
               map_of (generatedImages s') k = Some (errorImage (errorMessage err))) \<and>
            (\<forall>u v. t = AwaitWatermark u \<longrightarrow>
               (\<exists>s'. step (RegenerateSettle i (Inr v)) s = Some s' \<and>
                  map_of (generatedImages s') k = Some (doneImage v))) \<and>
            (\<forall>u. t = AwaitGenerate \<longrightarrow>
               (\<exists>s'. step (RegenerateSettle i (Inr u)) s = Some s' \<and>
                  regenerating s' ! i = (k, AwaitWatermark u) \<and>
                  generatedImages s' = generatedImages s)))"
proof -
  from assms orderly_mounted have o: "orderly s" by (rule orderly_session)
  have c1: "\<forall>n. \<exists>p. session (take n xs) mountedApp = Some p \<and>
            (\<forall>u \<in> set (writes p). key u \<in> set STYLE_KEYS \<longrightarrow> allowed u)"
  proof
    fix n
    from session_take[OF assms(1), of n] obtain p where p: "session (take n xs) mountedApp = Some p"
      by blast
    from p calm_take[OF assms(2), of n] orderly_mounted have "orderly p" by (rule orderly_session)
    then have "\<forall>u \<in> set (writes p). key u \<in> set STYLE_KEYS \<longrightarrow> allowed u"
      by (simp add: orderly_def transitionsAllowed_def)
    with p show "\<exists>p. session (take n xs) mountedApp = Some p \<and>
            (\<forall>u \<in> set (writes p). key u \<in> set STYLE_KEYS \<longrightarrow> allowed u)"
      by blast
  qed
  from o have sw: "singleWriter s" by (simp add: orderly_def)
  then have c2: "\<forall>k. count_list (active s) k = (if pendingIn s k then 1 else 0)"
    by (simp add: singleWriter_def)
  have c3: "\<forall>k \<in> set STYLE_KEYS. \<forall>g.
            (appState s = Generating \<or> appState s = ResultsShown) \<and>
            map_of (generatedImages s) k = Some g \<and> terminal g \<longrightarrow>
            act (Internal (RegenerateClick k)) s = Some (handleRegenerateStyle k s) \<and>
            map_of (generatedImages (handleRegenerateStyle k s)) k = Some pendingImage \<and>
            regenerating (handleRegenerateStyle k s) = regenerating s @ [(k, AwaitGenerate)]"
  proof (intro ballI allI impI)
    fix k g
    assume k: "k \<in> set STYLE_KEYS"
      and h: "(appState s = Generating \<or> appState s = ResultsShown) \<and>
            map_of (generatedImages s) k = Some g \<and> terminal g"
    from h o have tr: "truthy (croppedImageForDisplay s)" by (simp add: orderly_def cardsShown_def)
    from h have g: "map_of (generatedImages s) k = Some g" and t: "terminal g" by simp_all
    from h k have "act (Internal (RegenerateClick k)) s = Some (handleRegenerateStyle k s)"
      by simp
    with handleRegenerateStyle_terminal[OF tr k g t]
    show "act (Internal (RegenerateClick k)) s = Some (handleRegenerateStyle k s) \<and>
            map_of (generatedImages (handleRegenerateStyle k s)) k = Some pendingImage \<and>
            regenerating (handleRegenerateStyle k s) = regenerating s @ [(k, AwaitGenerate)]"
      by simp
  qed
  have c4: "\<forall>i k t. i < length (regenerating s) \<and> regenerating s ! i = (k, t) \<longrightarrow>
            pendingIn s k \<and>
            (\<forall>err. \<exists>s'. step (RegenerateSettle i (Inl err)) s = Some s' \<and>
               map_of (generatedImages s') k = Some (errorImage (errorMessage err))) \<and>
            (\<forall>u v. t = AwaitWatermark u \<longrightarrow>
               (\<exists>s'. step (RegenerateSettle i (Inr v)) s = Some s' \<and>
                  map_of (generatedImages s') k = Some (doneImage v))) \<and>
            (\<forall>u. t = AwaitGenerate \<longrightarrow>
               (\<exists>s'. step (RegenerateSettle i (Inr u)) s = Some s' \<and>
                  regenerating s' ! i = (k, AwaitWatermark u) \<and>
                  generatedImages s' = generatedImages s))"
  proof (intro allI impI)
    fix i k t assume h: "i < length (regenerating s) \<and> regenerating s ! i = (k, t)"
    then have i: "i < length (regenerating s)" and kt: "regenerating s ! i = (k, t)" by simp_all
    from regenerating_pending[OF sw i kt] have p: "pendingIn s k" .
    note r = regenerate_settles[OF i kt]
    from p r(1) r(2) r(3) show "pendingIn s k \<and>
            (\<forall>err. \<exists>s'. step (RegenerateSettle i (Inl err)) s = Some s' \<and>
               map_of (generatedImages s') k = Some (errorImage (errorMessage err))) \<and>
            (\<forall>u v. t = AwaitWatermark u \<longrightarrow>
               (\<exists>s'. step (RegenerateSettle i (Inr v)) s = Some s' \<and>
                  map_of (generatedImages s') k = Some (doneImage v))) \<and>
            (\<forall>u. t = AwaitGenerate \<longrightarrow>
               (\<exists>s'. step (RegenerateSettle i (Inr u)) s = Some s' \<and>
                  regenerating s' ! i = (k, AwaitWatermark u) \<and>
                  generatedImages s' = generatedImages s))"
      by blast
  qed
  from c1 c2 c3 c4 show ?thesis by (intro conjI)
qed

theorem status_transitions_witness:
  "\<exists>s s' s''. session calmSession mountedApp = Some s \<and> calm calmSession mountedApp \<and>
       appState s = ResultsShown \<and>
       last (transitions s) = (Regenerate, ''watercolor'', Some Error, Pending) \<and>
       last (writes s) \<in> set (writes s) \<and> key (last (writes s)) \<in> set STYLE_KEYS \<and>
       allowed (last (writes s)) \<and>
       0 < length (regenerating s) \<and> regenerating s ! 0 = (''watercolor'', AwaitGenerate) \<and>
       pendingIn s ''watercolor'' \<and>
       step (RegenerateSettle 0 (Inr ''data:b'')) s = Some s' \<and>
       regenerating s' ! 0 = (''watercolor'', AwaitWatermark ''data:b'') \<and>
       0 < length (regenerating s') \<and>
       step (RegenerateSettle 0 (Inr ''data:b+mark'')) s' = Some s'' \<and>
       map_of (generatedImages s'') ''watercolor'' = Some (doneImage ''data:b+mark'') \<and>
       ''sketch'' \<in> set STYLE_KEYS \<and>
       map_of (generatedImages s) ''sketch'' = Some (doneImage ''data:c+mark'') \<and>
       terminal (doneImage ''data:c+mark'') \<and>
       act (Internal (RegenerateClick ''sketch'')) s = Some (handleRegenerateStyle ''sketch'' s) \<and>
       map_of (generatedImages (handleRegenerateStyle ''sketch'' s)) ''sketch'' = Some pendingImage"
proof -
  let ?xs = "calmSession"
  let ?x = "Internal (RegenerateSettle 0 (Inr ''data:b''))"
  have "session ?xs mountedApp \<noteq> None" by code_simp
  then obtain s where s: "session ?xs mountedApp = Some s" by blast
  have c: "calm ?xs mountedApp" by code_simp
  have "map_option (\<lambda>x. (last (transitions x), regenerating x,
                         map_of (generatedImages x) ''sketch'', writes x \<noteq> [], appState x))
          (session ?xs mountedApp) =
        Some ((Regenerate, ''watercolor'', Some Error, Pending),
              [(''watercolor'', AwaitGenerate)], Some (doneImage ''data:c+mark''), True,
              ResultsShown)"
    by code_simp
  with s have l: "last (transitions s) = (Regenerate, ''watercolor'', Some Error, Pending)"
    and r: "regenerating s = [(''watercolor'', AwaitGenerate)]"
    and g: "map_of (generatedImages s) ''sketch'' = Some (doneImage ''data:c+mark'')"
    and ne: "writes s \<noteq> []"
    and st: "appState s = ResultsShown" by auto
  from ne have m: "last (writes s) \<in> set (writes s)" by simp
  from l ne have k: "key (last (writes s)) \<in> set STYLE_KEYS"
    by (simp add: transitions_def last_map STYLE_KEYS_eq)
  from r have i: "0 < length (regenerating s)"
    and n: "regenerating s ! 0 = (''watercolor'', AwaitGenerate)" by simp_all
  have sk: "''sketch'' \<in> set STYLE_KEYS" by (simp add: STYLE_KEYS_eq)
  have td: "terminal (doneImage ''data:c+mark'')" by (rule terminal_entries)
  note th = status_transitions[OF s c]
  note th1 = th[THEN conjunct1, rule_format, of "length calmSession"]
  note th3 = th[THEN conjunct2, THEN conjunct2, THEN conjunct1]
  note th4 = th[THEN conjunct2, THEN conjunct2, THEN conjunct2, rule_format, of 0 "''watercolor''" AwaitGenerate]
  from th1 s have "\<forall>u \<in> set (writes s). key u \<in> set STYLE_KEYS \<longrightarrow> allowed u" by simp
  with m k have al: "allowed (last (writes s))" by blast
  from th4 i n have p: "pendingIn s ''watercolor''" by blast
  from th4 i n obtain s' where s1: "step (RegenerateSettle 0 (Inr ''data:b'')) s = Some s'"
    and r1: "regenerating s' ! 0 = (''watercolor'', AwaitWatermark ''data:b'')"
    by blast
  from s1 have "act ?x s = Some s'" by simp
  note s' = session_snoc[OF s this]
  have c': "calm (?xs @ [?x]) mountedApp" by code_simp
  have "map_option regenerating (session (?xs @ [?x]) mountedApp) =
        Some [(''watercolor'', AwaitWatermark ''data:b'')]"
    by code_simp
  with s' have i': "0 < length (regenerating s')" by simp
  from status_transitions[OF s' c', THEN conjunct2, THEN conjunct2, THEN conjunct2, rule_format,
      of 0 "''watercolor''" "AwaitWatermark ''data:b''"] i' r1
  obtain s'' where s2: "step (RegenerateSettle 0 (Inr ''data:b+mark'')) s' = Some s''"
    and g2: "map_of (generatedImages s'') ''watercolor'' = Some (doneImage ''data:b+mark'')"
    by blast
  from th3 sk g td st
  have rg: "act (Internal (RegenerateClick ''sketch'')) s = Some (handleRegenerateStyle ''sketch'' s)"
    and rg': "map_of (generatedImages (handleRegenerateStyle ''sketch'' s)) ''sketch'' = Some pendingImage"
    by blast+
  show ?thesis
    by (intro exI[of _ s] exI[of _ s'] exI[of _ s''] conjI)
      (fact s c st l m k al i n p s1 r1 i' s2 g2 sk g td rg rg')+
qed

text \<open>
  Claim C6 as stated fails when a regeneration outlives its photo: in the session
  \<open>staleSession\<close>, which the page allows step by step from the mounted component, the
  worker's update of the first style key replaces the status \<open>done\<close>, stored by the old
  regeneration, by \<open>done\<close>.
\<close>

theorem stale_regeneration_counterexample:
  "map_option transitions (session staleSession mountedApp) =
     Some [(Regenerate, ''digital-painting'', Some Pending, Done),
           (Pool 0, ''digital-painting'', Some Done, Done)] \<and>
   map_option transitionsAllowed (session staleSession mountedApp) = Some False"
  by code_simp

text \<open>
  The same happens without any regeneration when a file read ends late: in the session
  \<open>lateLoadSession\<close> the \<open>onloadend\<close> callback empties the result mapping while the
  first worker waits for its image, and the worker's update then finds no entry to
  replace. In both sessions the mapping is emptied while something is under way.
\<close>

lemma late_load_example:
  "map_option transitions (session lateLoadSession mountedApp) =
     Some [(Pool 0, ''digital-painting'', None, Done)] \<and>
   map_option transitionsAllowed (session lateLoadSession mountedApp) = Some False \<and>
   \<not> calm lateLoadSession mountedApp \<and> \<not> calm staleSession mountedApp"
  by code_simp

section \<open>The album is composed only from nine finished images\<close>

text \<open>
  Claim C7. In every state the page can reach from the mounted component,
  \<open>handleDownloadAlbum\<close> calls \<open>createAlbumPage\<close> only if every style key has an entry
  with status \<open>done\<close> and a non-empty url. Otherwise it shows the alert "Please wait for
  all images to finish generating before downloading the album." and does nothing else:
  no album is composed from a part of the images. On every path \<open>isDownloading\<close> is false
  at the end.
\<close>

theorem album_only_when_all_done:
  assumes "session xs mountedApp = Some a"
  shows "(\<forall>imageData. CreateAlbumPage imageData \<in> set (snd (handleDownloadAlbum createAlbumPage a))
            \<longrightarrow> allDone a) \<and>
         (\<not> allDone a \<longrightarrow> snd (handleDownloadAlbum createAlbumPage a) = [Alert waitMessage]) \<and>
         \<not> isDownloading (fst (handleDownloadAlbum createAlbumPage a))"
proof -
  let ?c = "collectImageData (doneEntries (generatedImages a)) []"
  let ?r = "snd (handleDownloadAlbum createAlbumPage a)"
  from styleKeysOnly_session[OF assms styleKeysOnly_mounted]
  have "fst ` set (generatedImages a) \<subseteq> set STYLE_KEYS" by (simp add: styleKeysOnly_def)
  with doneEntries_keys[of "generatedImages a"]
  have "fst ` set (doneEntries (generatedImages a)) \<subseteq> set STYLE_KEYS" by blast
  from collectImageData_total[OF this, of "[]"] obtain r where r: "?c = Inr r" by blast
  have c1: "\<forall>imageData. CreateAlbumPage imageData \<in> set ?r \<longrightarrow> allDone a"
  proof (intro allI impI)
    fix imageData assume "CreateAlbumPage imageData \<in> set ?r"
    with r have "length STYLE_KEYS \<le> length r"
      by (auto simp add: handleDownloadAlbum_def split: if_splits)
    with r show "allDone a" by (rule composed_allDone)
  qed
  have c2: "\<not> allDone a \<longrightarrow> ?r = [Alert waitMessage]"
  proof
    assume "\<not> allDone a"
    with composed_allDone[OF r] have "length r < length STYLE_KEYS" by force
    with r show "?r = [Alert waitMessage]" by (simp add: handleDownloadAlbum_def)
  qed
  have c3: "\<not> isDownloading (fst (handleDownloadAlbum createAlbumPage a))"
    by (simp add: handleDownloadAlbum_def)
  from c1 c2 c3 show ?thesis by (intro conjI)
qed

theorem album_only_when_all_done_witness:
  "(\<exists>a. session (startSession @ map Internal successRun) mountedApp = Some a \<and>
        appState a = ResultsShown \<and>
        snd (handleDownloadAlbum albumReady a) =
          [CreateAlbumPage
             [(''Digital Painting'', ''data:watermarked''), (''Watercolor'', ''data:watermarked''),
              (''Sketch'', ''data:watermarked''), (''Pastel Pop'', ''data:watermarked''),
              (''3D Render'', ''data:watermarked''), (''Impressionism'', ''data:watermarked''),
              (''Pop Art'', ''data:watermarked''), (''Anime'', ''data:watermarked''),
              (''Comic Book'', ''data:watermarked'')],
           Download ''data:album'' ''pfp-perfect-album.jpg''] \<and>
        allDone a) \<and>
   (\<exists>a. session (startSession @ map Internal fullRun) mountedApp = Some a \<and>
        appState a = ResultsShown \<and>
        map_of (generatedImages a) ''watercolor'' = Some (errorImage ''quota exceeded'') \<and>
        \<not> allDone a \<and>
        snd (handleDownloadAlbum albumReady a) = [Alert waitMessage])"
proof -
  let ?data = "[(''Digital Painting'', ''data:watermarked''), (''Watercolor'', ''data:watermarked''),
              (''Sketch'', ''data:watermarked''), (''Pastel Pop'', ''data:watermarked''),
              (''3D Render'', ''data:watermarked''), (''Impressionism'', ''data:watermarked''),
              (''Pop Art'', ''data:watermarked''), (''Anime'', ''data:watermarked''),
              (''Comic Book'', ''data:watermarked'')]"
  let ?ok = "session (startSession @ map Internal successRun) mountedApp"
  let ?ko = "session (startSession @ map Internal fullRun) mountedApp"
  have "?ok \<noteq> None" by code_simp
  then obtain a where a: "?ok = Some a" by blast
  have "map_option (\<lambda>x. (appState x, snd (handleDownloadAlbum albumReady x))) ?ok =
        Some (ResultsShown,
              [CreateAlbumPage ?data, Download ''data:album'' ''pfp-perfect-album.jpg''])"
    by code_simp
  with a have st: "appState a = ResultsShown"
    and e: "snd (handleDownloadAlbum albumReady a) =
              [CreateAlbumPage ?data, Download ''data:album'' ''pfp-perfect-album.jpg'']"
    by auto
  from e have "CreateAlbumPage ?data \<in> set (snd (handleDownloadAlbum albumReady a))" by simp
  with album_only_when_all_done[OF a, of albumReady] have d: "allDone a" by blast
  from a st e d have first: "\<exists>a. ?ok = Some a \<and> appState a = ResultsShown \<and>
        snd (handleDownloadAlbum albumReady a) =
          [CreateAlbumPage ?data, Download ''data:album'' ''pfp-perfect-album.jpg''] \<and>
        allDone a"
    by blast
  have "?ko \<noteq> None" by code_simp
  then obtain b where b: "?ko = Some b" by blast
  have "map_option (\<lambda>x. (appState x, map (\<lambda>p. (fst p, status (snd p))) (generatedImages x),
                         map_of (generatedImages x) ''watercolor'')) ?ko =
        Some (ResultsShown,
              [(''digital-painting'', Done), (''watercolor'', Error), (''sketch'', Done),
               (''vaporwave'', Error), (''3d-render'', Done), (''impressionism'', Done),
               (''pop-art'', Done), (''anime'', Done), (''comic-book'', Done)],
              Some (errorImage ''quota exceeded''))"
    by code_simp
  with b have st': "appState b = ResultsShown"
    and m: "map (\<lambda>p. (fst p, status (snd p))) (generatedImages b) =
              [(''digital-painting'', Done), (''watercolor'', Error), (''sketch'', Done),
               (''vaporwave'', Error), (''3d-render'', Done), (''impressionism'', Done),
               (''pop-art'', Done), (''anime'', Done), (''comic-book'', Done)]"
    and w: "map_of (generatedImages b) ''watercolor'' = Some (errorImage ''quota exceeded'')"
    by auto
  have n: "\<not> allDone b"
  proof
    assume "allDone b"
    then obtain g where "(''watercolor'', g) \<in> set (generatedImages b)" "status g = Done"
      by (force simp add: allDone_def STYLE_KEYS_eq)
    then have "(''watercolor'', Done) \<in> set (map (\<lambda>p. (fst p, status (snd p))) (generatedImages b))"
      by force
    with m show False by simp
  qed
  with album_only_when_all_done[OF b, of albumReady]
  have r: "snd (handleDownloadAlbum albumReady b) = [Alert waitMessage]" by blast
  from b st' w n r have second: "\<exists>a. ?ko = Some a \<and> appState a = ResultsShown \<and>
        map_of (generatedImages a) ''watercolor'' = Some (errorImage ''quota exceeded'') \<and>
        \<not> allDone a \<and> snd (handleDownloadAlbum albumReady a) = [Alert waitMessage]"
    by blast
  from first second show ?thesis by (rule conjI)
qed

section \<open>The representation of the status\<close>

text \<open>
  Claim C8, as amended. The status of a job is represented by the interface
  \<open>GeneratedImage\<close>: a status tag and two optional fields. The sum type of the
  specification embeds into it one to one, its image is exactly the well-formed entries,
  and these are the three forms the component constructs; but the image is not the whole
  type: entries that hold a url and an error at once, or a payload while \<open>pending\<close>, are
  values of the type.
\<close>

theorem status_representation:
  "inj represent \<and> range represent = {g. wellFormed g} \<and> range represent \<noteq> UNIV \<and>
   represent JobPending = \<lparr>status = Pending, url = None, error = None\<rparr> \<and>
   represent (JobDone resultUrl) = \<lparr>status = Done, url = Some resultUrl, error = None\<rparr> \<and>
   represent (JobError reason) = \<lparr>status = Error, url = None, error = Some reason\<rparr>"
proof -
  have i: "inj represent"
  proof (rule injI)
    fix x y assume "represent x = represent y"
    then show "x = y"
      by (cases x; cases y) (simp_all add: pendingImage_def doneImage_def errorImage_def)
  qed
  have r: "range represent = {g. wellFormed g}"
  proof (intro set_eqI iffI)
    fix g assume "g \<in> range represent"
    then obtain x where "g = represent x" by blast
    then show "g \<in> {g. wellFormed g}" by (cases x) (simp_all add: wellFormed_entries)
  next
    fix g assume "g \<in> {g. wellFormed g}"
    then have w: "wellFormed g" by simp
    show "g \<in> range represent"
    proof (cases "status g")
      case Pending
      with w have "g = represent JobPending"
        by (cases g) (simp add: wellFormed_def pendingImage_def)
      then show ?thesis by blast
    next
      case Done
      with w obtain u where "url g = Some u" "error g = None" by (auto simp add: wellFormed_def)
      with Done have "g = represent (JobDone u)" by (cases g) (simp add: doneImage_def)
      then show ?thesis by blast
    next
      case Error
      with w obtain m where "error g = Some m" "url g = None" by (auto simp add: wellFormed_def)
      with Error have "g = represent (JobError m)" by (cases g) (simp add: errorImage_def)
      then show ?thesis by blast
    qed
  qed
  have "\<not> wellFormed contradictoryImage" by (simp add: wellFormed_def contradictoryImage_def)
  with r have n: "range represent \<noteq> UNIV" by blast
  show ?thesis
    using i r n by (simp add: pendingImage_def doneImage_def errorImage_def)
qed

text \<open>
  Claim C8 as stated fails: the type of the entries has a value that is \<open>pending\<close> and
  holds both a url and an error; it is not well formed, and it stands for no value of
  the sum type.
\<close>

theorem optional_fields_counterexample:
  "status contradictoryImage = Pending \<and>
   url contradictoryImage = Some ''data:image/jpeg;base64,AAAA'' \<and>
   error contradictoryImage = Some ''quota exceeded'' \<and>
   \<not> wellFormed contradictoryImage \<and>
   contradictoryImage \<notin> range represent"
proof -
  have "represent x \<noteq> contradictoryImage" for x
    by (cases x) (simp_all add: contradictoryImage_def pendingImage_def doneImage_def errorImage_def)
  then have "contradictoryImage \<notin> range represent" by (metis rangeE)
  then show ?thesis by (simp add: contradictoryImage_def wellFormed_def)
qed

section \<open>The watermark\<close>

text \<open>
  Claim C9, as amended. \<open>addWatermark(imageUrl)\<close> rejects with "Failed to load image:
  ..." when the image does not load, and throws "Could not get 2D canvas context" when
  the image loads and the browser gives no 2D context for the canvas. Given an image that
  loads and a 2D context, it succeeds: the result is the JPEG data URL of a canvas of the
  image's natural size on which the image was drawn at the origin and then the text
  \<open>psule.app\<close>, right-aligned with its bottom at the point \<open>padding\<close> pixels left of
  and above the bottom right corner, where \<open>padding\<close> is the larger of 20 and 2 percent of
  the width.
\<close>

theorem watermark_result:
  "(decode b imageUrl = None \<longrightarrow>
      addWatermark b imageUrl =
        Inl (ErrorObject (''Failed to load image: '' @ take 50 imageUrl @ ''...''))) \<and>
   (\<forall>img. decode b imageUrl = Some img \<and> \<not> context2d b (naturalWidth img) (naturalHeight img) \<longrightarrow>
      addWatermark b imageUrl = Inl (ErrorObject ''Could not get 2D canvas context'')) \<and>
   (\<forall>img. decode b imageUrl = Some img \<and> context2d b (naturalWidth img) (naturalHeight img) \<longrightarrow>
      (\<exists>x y ctx.
         addWatermark b imageUrl =
           Inr (toDataURL b
                 \<lparr>width = naturalWidth img, height = naturalHeight img,
                  drawn = [DrawImage img 0 0, FillText ''psule.app'' x y ctx]\<rparr>) \<and>
         textAlign ctx = ''right'' \<and> textBaseline ctx = ''bottom'' \<and>
         x = real (naturalWidth img) - max 20 (real (naturalWidth img) * 0.02) \<and>
         y = real (naturalHeight img) - max 20 (real (naturalWidth img) * 0.02) \<and>
         x < real (naturalWidth img) \<and> y < real (naturalHeight img)))"
proof (intro conjI allI impI)
  assume "decode b imageUrl = None"
  then show "addWatermark b imageUrl =
        Inl (ErrorObject (''Failed to load image: '' @ take 50 imageUrl @ ''...''))"
    by (simp add: addWatermark_def loadImage_def)
next
  fix img
  assume "decode b imageUrl = Some img \<and> \<not> context2d b (naturalWidth img) (naturalHeight img)"
  then show "addWatermark b imageUrl = Inl (ErrorObject ''Could not get 2D canvas context'')"
    by (simp add: addWatermark_def loadImage_def)
next
  fix img
  assume h: "decode b imageUrl = Some img \<and> context2d b (naturalWidth img) (naturalHeight img)"
  let ?p = "max 20 (real (naturalWidth img) * 0.02)"
  let ?ctx = "\<lparr>fontSize = max 18 (real (naturalWidth img) * 0.03),
                fontFamily = CHR 0x27 # ''Roboto'' @ CHR 0x27 # '', sans-serif'',
                fillStyle = ''rgba(255, 255, 255, 0.6)'', textAlign = ''right'',
                textBaseline = ''bottom'', shadowColor = ''rgba(0, 0, 0, 0.5)'',
                shadowBlur = 5, shadowOffsetX = 1, shadowOffsetY = 1\<rparr>"
  have r: "addWatermark b imageUrl =
           Inr (toDataURL b
                 \<lparr>width = naturalWidth img, height = naturalHeight img,
                  drawn = [DrawImage img 0 0,
                           FillText ''psule.app'' (real (naturalWidth img) - ?p)
                             (real (naturalHeight img) - ?p) ?ctx]\<rparr>)"
    using h by (simp add: addWatermark_def loadImage_def Let_def watermarkText_def)
  have p: "0 < ?p" by simp
  show "\<exists>x y ctx.
         addWatermark b imageUrl =
           Inr (toDataURL b
                 \<lparr>width = naturalWidth img, height = naturalHeight img,
                  drawn = [DrawImage img 0 0, FillText ''psule.app'' x y ctx]\<rparr>) \<and>
         textAlign ctx = ''right'' \<and> textBaseline ctx = ''bottom'' \<and>
         x = real (naturalWidth img) - max 20 (real (naturalWidth img) * 0.02) \<and>
         y = real (naturalHeight img) - max 20 (real (naturalWidth img) * 0.02) \<and>
         x < real (naturalWidth img) \<and> y < real (naturalHeight img)"
    by (rule exI[of _ "real (naturalWidth img) - ?p"], rule exI[of _ "real (naturalHeight img) - ?p"],
        rule exI[of _ ?ctx]) (use r p in simp)
qed

theorem watermark_result_witness:
  "decode (workingBrowser\<lparr>decode := Map.empty\<rparr>) ''data:broken'' = None \<and>
   addWatermark (workingBrowser\<lparr>decode := Map.empty\<rparr>) ''data:broken'' =
     Inl (ErrorObject ''Failed to load image: data:broken...'') \<and>
   decode workingBrowser ''data:image/png;base64,AAAA'' =
     Some \<lparr>src = ''data:image/png;base64,AAAA'', naturalWidth = 1024, naturalHeight = 768\<rparr> \<and>
   context2d workingBrowser 1024 768 \<and>
   \<not> context2d starvedBrowser 1024 1024 \<and>
   addWatermark starvedBrowser ''data:image/png;base64,AAAA'' =
     Inl (ErrorObject ''Could not get 2D canvas context'') \<and>
   (\<exists>ctx. addWatermark workingBrowser ''data:image/png;base64,AAAA'' =
      Inr (toDataURL workingBrowser
            \<lparr>width = 1024, height = 768,
             drawn = [DrawImage \<lparr>src = ''data:image/png;base64,AAAA'', naturalWidth = 1024,
                                naturalHeight = 768\<rparr> 0 0,
                      FillText ''psule.app'' 1003.52 747.52 ctx]\<rparr>))"
proof -
  let ?img = "\<lparr>src = ''data:image/png;base64,AAAA'', naturalWidth = 1024, naturalHeight = 768\<rparr>"
  have a: "decode (workingBrowser\<lparr>decode := Map.empty\<rparr>) ''data:broken'' = None" by simp
  from watermark_result[of "workingBrowser\<lparr>decode := Map.empty\<rparr>" "''data:broken''"] a
  have b: "addWatermark (workingBrowser\<lparr>decode := Map.empty\<rparr>) ''data:broken'' =
     Inl (ErrorObject ''Failed to load image: data:broken...'')" by simp
  have c: "decode workingBrowser ''data:image/png;base64,AAAA'' = Some ?img"
    and d: "context2d workingBrowser 1024 768"
    by (simp_all add: workingBrowser_def)
  from d have d': "context2d workingBrowser (naturalWidth ?img) (naturalHeight ?img)" by simp
  from watermark_result[of workingBrowser "''data:image/png;base64,AAAA''", THEN conjunct2,
      THEN conjunct2, rule_format, of ?img] c d'
  obtain x y ctx where r: "addWatermark workingBrowser ''data:image/png;base64,AAAA'' =
           Inr (toDataURL workingBrowser
                 \<lparr>width = naturalWidth ?img, height = naturalHeight ?img,
                  drawn = [DrawImage ?img 0 0, FillText ''psule.app'' x y ctx]\<rparr>)"
    and x: "x = real (naturalWidth ?img) - max 20 (real (naturalWidth ?img) * 0.02)"
    and y: "y = real (naturalHeight ?img) - max 20 (real (naturalWidth ?img) * 0.02)"
    by blast
  from x have x': "x = 1003.52" by simp
  from y have y': "y = 747.52" by simp
  from r x' y' have e: "\<exists>ctx. addWatermark workingBrowser ''data:image/png;base64,AAAA'' =
      Inr (toDataURL workingBrowser
            \<lparr>width = 1024, height = 768,
             drawn = [DrawImage ?img 0 0, FillText ''psule.app'' 1003.52 747.52 ctx]\<rparr>)"
    by (intro exI[of _ ctx]) simp
  let ?big = "\<lparr>src = ''data:image/png;base64,AAAA'', naturalWidth = 1024, naturalHeight = 1024\<rparr>"
  have f: "decode starvedBrowser ''data:image/png;base64,AAAA'' = Some ?big"
    and g: "\<not> context2d starvedBrowser 1024 1024"
    by (simp_all add: starvedBrowser_def)
  from g have g': "\<not> context2d starvedBrowser (naturalWidth ?big) (naturalHeight ?big)" by simp
  from watermark_result[of starvedBrowser "''data:image/png;base64,AAAA''", THEN conjunct2,
      THEN conjunct1, rule_format, of ?big] f g'
  have h: "addWatermark starvedBrowser ''data:image/png;base64,AAAA'' =
     Inl (ErrorObject ''Could not get 2D canvas context'')" by blast
  from a b c d g h e show ?thesis by (intro conjI)
qed

text \<open>
  Claim C9 as stated fails: in a browser that loads the image and gives no 2D context for
  the canvas, \<open>addWatermark\<close> throws.
\<close>

theorem watermark_counterexample:
  "decode starvedBrowser ''data:image/png;base64,AAAA'' =
     Some \<lparr>src = ''data:image/png;base64,AAAA'', naturalWidth = 1024, naturalHeight = 1024\<rparr> \<and>
   addWatermark starvedBrowser ''data:image/png;base64,AAAA'' =
     Inl (ErrorObject ''Could not get 2D canvas context'')"
  by (simp add: starvedBrowser_def addWatermark_def loadImage_def)

section \<open>Entries of the result mapping are well formed\<close>

text \<open>
  Claim C10. The three entries the component ever constructs are well formed. Starting
  from a state whose entries are well formed (the empty mapping of the initial state is),
  by a call of \<open>handleGenerateClick\<close> (which stores \<open>initialImages\<close>) or without one, every
  state reached by steps of the pool and of \<open>handleRegenerateStyle\<close> has only well-formed
  entries, and so has every update recorded: status \<open>done\<close> comes with a url and no
  error, status \<open>error\<close> with an error string and no url, status \<open>pending\<close> with neither;
  no entry holds both a url and an error.
\<close>

theorem entries_well_formed:
  assumes "\<forall>p \<in> set (generatedImages a). wellFormed (snd p)"
    and "\<forall>u \<in> set (writes a). wellFormed (after u)"
    and "exec es a = Some s \<or> exec es (handleGenerateClick a) = Some s"
  shows "wellFormed pendingImage \<and> wellFormed (doneImage watermarkedUrl) \<and>
         wellFormed (errorImage message) \<and>
         (\<forall>p \<in> set initialImages. snd p = pendingImage) \<and>
         (\<forall>u \<in> set (writes s). wellFormed (after u)) \<and>
         (\<forall>k g. map_of (generatedImages s) k = Some g \<longrightarrow>
            (status g = Done \<longrightarrow> url g \<noteq> None \<and> error g = None) \<and>
            (status g = Error \<longrightarrow> error g \<noteq> None \<and> url g = None) \<and>
            (status g = Pending \<longrightarrow> url g = None \<and> error g = None) \<and>
            \<not> (url g \<noteq> None \<and> error g \<noteq> None))"
proof -
  from assms(1,2) have w0: "wellFormedState a" by (simp add: wellFormedState_def)
  have ws: "wellFormedState s"
  proof -
    from assms(3) show ?thesis
    proof
      assume "exec es a = Some s"
      then show ?thesis using w0 wellFormedState_step by (rule exec_preserves)
    next
      assume "exec es (handleGenerateClick a) = Some s"
      then show ?thesis
        using wellFormedState_start[OF w0] wellFormedState_step by (rule exec_preserves)
    qed
  qed
  have ini: "\<forall>p \<in> set initialImages. snd p = pendingImage"
    using set_foldl_update[of _ pendingImage "[]" STYLE_KEYS] by (auto simp add: initialImages_def)
  have m: "(status g = Done \<longrightarrow> url g \<noteq> None \<and> error g = None) \<and>
            (status g = Error \<longrightarrow> error g \<noteq> None \<and> url g = None) \<and>
            (status g = Pending \<longrightarrow> url g = None \<and> error g = None) \<and>
            \<not> (url g \<noteq> None \<and> error g \<noteq> None)"
    if "map_of (generatedImages s) k = Some g" for k g
  proof -
    from that have "(k, g) \<in> set (generatedImages s)" by (rule map_of_SomeD)
    with ws have "wellFormed g" by (auto simp add: wellFormedState_def)
    then show ?thesis by (cases "status g") (auto simp add: wellFormed_def)
  qed
  from ws have wr: "\<forall>u \<in> set (writes s). wellFormed (after u)" by (simp add: wellFormedState_def)
  from m have m': "\<forall>k g. map_of (generatedImages s) k = Some g \<longrightarrow>
            (status g = Done \<longrightarrow> url g \<noteq> None \<and> error g = None) \<and>
            (status g = Error \<longrightarrow> error g \<noteq> None \<and> url g = None) \<and>
            (status g = Pending \<longrightarrow> url g = None \<and> error g = None) \<and>
            \<not> (url g \<noteq> None \<and> error g \<noteq> None)" by blast
  from wellFormed_entries ini wr m' show ?thesis by (intro conjI)
qed

theorem entries_well_formed_witness:
  "(\<exists>s. exec (fullRun @ [RegenerateClick ''watercolor'', RegenerateSettle 0 (Inr ''data:b''),
                         RegenerateSettle 0 (Inr ''data:b+mark'')])
          (handleGenerateClick uploadedApp) = Some s \<and>
        map_of (generatedImages s) ''watercolor'' = Some (doneImage ''data:b+mark'') \<and>
        map_of (generatedImages s) ''vaporwave'' =
          Some (errorImage ''An unknown error occurred.'') \<and>
        url (doneImage ''data:b+mark'') \<noteq> None \<and> error (doneImage ''data:b+mark'') = None \<and>
        length (writes s) = 11) \<and>
   list_all (\<lambda>p. wellFormed (snd p)) (generatedImages finishedApp) \<and>
   length (generatedImages finishedApp) = 9 \<and>
   (\<exists>s. exec [RegenerateClick ''anime'', RegenerateSettle 0 (Inl (ErrorObject ''blocked''))]
          finishedApp = Some s \<and>
        map_of (generatedImages s) ''anime'' = Some (errorImage ''blocked'') \<and>
        status (errorImage ''blocked'') = Error \<and>
        error (errorImage ''blocked'') \<noteq> None \<and> url (errorImage ''blocked'') = None)"
proof -
  let ?es = "fullRun @ [RegenerateClick ''watercolor'', RegenerateSettle 0 (Inr ''data:b''),
                        RegenerateSettle 0 (Inr ''data:b+mark'')]"
  have a: "\<forall>p \<in> set (generatedImages uploadedApp). wellFormed (snd p)"
    and b: "\<forall>u \<in> set (writes uploadedApp). wellFormed (after u)"
    by (simp_all add: uploadedApp_def)
  have "exec ?es (handleGenerateClick uploadedApp) \<noteq> None" by code_simp
  then obtain s where s: "exec ?es (handleGenerateClick uploadedApp) = Some s" by blast
  have "map_option (\<lambda>x. (map_of (generatedImages x) ''watercolor'',
                         map_of (generatedImages x) ''vaporwave'', length (writes x)))
          (exec ?es (handleGenerateClick uploadedApp)) =
        Some (Some (doneImage ''data:b+mark''),
              Some (errorImage ''An unknown error occurred.''), 11)"
    by code_simp
  with s have g: "map_of (generatedImages s) ''watercolor'' = Some (doneImage ''data:b+mark'')"
    and h: "map_of (generatedImages s) ''vaporwave'' = Some (errorImage ''An unknown error occurred.'')"
    and n: "length (writes s) = 11" by auto
  from entries_well_formed[OF a b disjI2[OF s]] g
  have "url (doneImage ''data:b+mark'') \<noteq> None \<and> error (doneImage ''data:b+mark'') = None"
    by (simp add: doneImage_def)
  with s g h n have first: "\<exists>s. exec ?es (handleGenerateClick uploadedApp) = Some s \<and>
        map_of (generatedImages s) ''watercolor'' = Some (doneImage ''data:b+mark'') \<and>
        map_of (generatedImages s) ''vaporwave'' =
          Some (errorImage ''An unknown error occurred.'') \<and>
        url (doneImage ''data:b+mark'') \<noteq> None \<and> error (doneImage ''data:b+mark'') = None \<and>
        length (writes s) = 11"
    by blast
  let ?fs = "[RegenerateClick ''anime'', RegenerateSettle 0 (Inl (ErrorObject ''blocked''))]"
  have w: "list_all (\<lambda>p. wellFormed (snd p)) (generatedImages finishedApp)"
    and l: "length (generatedImages finishedApp) = 9"
    by code_simp+
  from w have a': "\<forall>p \<in> set (generatedImages finishedApp). wellFormed (snd p)"
    by (simp add: list_all_iff)
  have b': "\<forall>u \<in> set (writes finishedApp). wellFormed (after u)"
    by (simp add: finishedApp_def uploadedApp_def)
  have "exec ?fs finishedApp \<noteq> None" by code_simp
  then obtain s' where s': "exec ?fs finishedApp = Some s'" by blast
  have "map_option (\<lambda>x. map_of (generatedImages x) ''anime'') (exec ?fs finishedApp) =
        Some (Some (errorImage ''blocked''))"
    by code_simp
  with s' have g': "map_of (generatedImages s') ''anime'' = Some (errorImage ''blocked'')" by auto
  have e: "status (errorImage ''blocked'') = Error" by (simp add: errorImage_def)
  from entries_well_formed[OF a' b' disjI1[OF s']] g' e
  have "error (errorImage ''blocked'') \<noteq> None \<and> url (errorImage ''blocked'') = None"
    by blast
  with s' g' e have second: "\<exists>s. exec ?fs finishedApp = Some s \<and>
        map_of (generatedImages s) ''anime'' = Some (errorImage ''blocked'') \<and>
        status (errorImage ''blocked'') = Error \<and>
        error (errorImage ''blocked'') \<noteq> None \<and> url (errorImage ''blocked'') = None"
    by blast
  from first w l second show ?thesis by (intro conjI)
qed

end
